theory Spec2Isabelle
  imports Complex_Main "HOL-Library.Monad_Syntax"
begin

section \<open>Python values shared by the generator and the summarizer\<close>

text \<open>
  The exceptions the two scripts can raise. \<open>IndexError\<close> comes from \<open>choices[-1]\<close> on
  an empty table, \<open>ValueError\<close> from \<open>datetime.fromisoformat\<close>, \<open>OverflowError\<close> from
  \<open>datetime + timedelta\<close> leaving the range of \<open>datetime\<close>.
\<close>

datatype py_error = IndexError | ValueError | OverflowError

section \<open>firewall\_log\_generator.py: the random source\<close>

text \<open>
  The module \<open>random\<close> is not part of the repository. Its generator is a state of an
  arbitrary type \<open>'s\<close> together with the primitives the script reaches:
  \<open>random()\<close>, the internal \<open>_randbelow(n)\<close> behind \<open>randint\<close> and \<open>choice\<close>,
  \<open>expovariate(lambd)\<close> and \<open>seed(n)\<close>. Python floats are read as reals.
\<close>

record 's rng =
  rnd_random :: "'s \<Rightarrow> real \<times> 's"
  rnd_below :: "nat \<Rightarrow> 's \<Rightarrow> nat \<times> 's"
  rnd_expovariate :: "real \<Rightarrow> 's \<Rightarrow> real \<times> 's"
  rnd_seed :: "int \<Rightarrow> 's"

section \<open>firewall\_log\_generator.py: weighted\_choice\<close>

text \<open>
  The \<open>for k, w in choices\<close> loop of \<open>weighted_choice\<close>, for a draw \<open>r\<close> and the mass
  \<open>acc\<close> (\<open>upto\<close> in the source) accumulated so far; \<open>None\<close> when the loop falls through. The weights are of
  any type with an addition and an order, so that nothing below depends on how sums
  of floats are rounded.
\<close>

fun weighted_walk :: "'w::{plus,ord} \<Rightarrow> 'w \<Rightarrow> ('k \<times> 'w) list \<Rightarrow> 'k option" where
  "weighted_walk r acc [] = None"
| "weighted_walk r acc ((k, w) # rest) =
     (if acc + w \<ge> r then Some k else weighted_walk r (acc + w) rest)"

text \<open>\<open>weighted_choice\<close> once \<open>r\<close> is drawn: the loop, then \<open>choices[-1][0]\<close>.\<close>

definition weighted_pick :: "'w::{zero,plus,ord} \<Rightarrow> ('k \<times> 'w) list \<Rightarrow> py_error + 'k" where
  "weighted_pick r choices =
     (case weighted_walk r 0 choices of
        Some k \<Rightarrow> Inr k
      | None \<Rightarrow> (if choices = [] then Inl IndexError else Inr (fst (last choices))))"

definition weighted_choice :: "'s rng \<Rightarrow> (string \<times> real) list \<Rightarrow> 's \<Rightarrow> (py_error + string) \<times> 's" where
  "weighted_choice R choices s =
     (let (r, s1) = rnd_random R s in (weighted_pick r choices, s1))"

text \<open>
  The words of the specification: the cumulative mass of entry \<open>i\<close> is the sum, from
  the left and starting at zero, of the weights of the entries up to \<open>i\<close>; the label
  returned is the first whose cumulative mass is at least \<open>r\<close>, the last label of the table
  when there is none.
\<close>

definition cum_mass :: "('k \<times> 'w::{zero,plus}) list \<Rightarrow> nat \<Rightarrow> 'w" where
  "cum_mass choices i = foldl (+) 0 (map snd (take (Suc i) choices))"

definition first_reaching :: "'w::{zero,plus,ord} \<Rightarrow> ('k \<times> 'w) list \<Rightarrow> 'k" where
  "first_reaching r choices =
     (case find (\<lambda>i. cum_mass choices i \<ge> r) [0..<length choices] of
        Some i \<Rightarrow> fst (choices ! i)
      | None \<Rightarrow> fst (last choices))"

section \<open>firewall\_log\_generator.py: the draws of the module random\<close>

text \<open>
  \<open>randint(a, b)\<close> is \<open>a + _randbelow(b - a + 1)\<close> and \<open>choice(seq)\<close> is
  \<open>seq[_randbelow(len(seq))]\<close>. Every call of the script has \<open>a \<le> b\<close> and a
  non-empty constant sequence, so the \<open>ValueError\<close> and \<open>IndexError\<close> of the library
  for an empty range are not reached.
\<close>

definition randint :: "'s rng \<Rightarrow> int \<Rightarrow> int \<Rightarrow> 's \<Rightarrow> int \<times> 's" where
  "randint R a b s = (let (k, s1) = rnd_below R (nat (b - a + 1)) s in (a + int k, s1))"

definition choice :: "'s rng \<Rightarrow> 'a list \<Rightarrow> 's \<Rightarrow> 'a \<times> 's" where
  "choice R seq s = (let (k, s1) = rnd_below R (length seq) s in (seq ! k, s1))"

text \<open>
  \<open>random.choices(population, weights)[0]\<close>: the library accumulates the weights,
  scales one draw of \<open>random()\<close> by their total and bisects (to the right) among the
  cumulative weights, below the index \<open>n - 1\<close>.
\<close>

fun accumulate :: "'w::plus \<Rightarrow> 'w list \<Rightarrow> 'w list" where
  "accumulate acc [] = []"
| "accumulate acc (w # ws) = (acc + w) # accumulate (acc + w) ws"

function bisect_right :: "'w::ord list \<Rightarrow> 'w \<Rightarrow> nat \<Rightarrow> nat \<Rightarrow> nat" where
  "bisect_right a x lo hi =
     (if lo < hi
      then (let mid = (lo + hi) div 2
            in if x < a ! mid then bisect_right a x lo mid else bisect_right a x (mid + 1) hi)
      else lo)"
  by pat_completeness auto
termination
  by (relation "measure (\<lambda>(a, x, lo, hi). hi - lo)") auto

definition choices_one :: "'s rng \<Rightarrow> 'a list \<Rightarrow> real list \<Rightarrow> 's \<Rightarrow> 'a \<times> 's" where
  "choices_one R population weights s =
     (let cum_weights = (case weights of [] \<Rightarrow> [] | w # ws \<Rightarrow> w # accumulate w ws);
          total = last cum_weights + 0;
          (r, s1) = rnd_random R s
      in (population ! bisect_right cum_weights (r * total) 0 (length population - 1), s1))"

section \<open>firewall\_log\_generator.py: rendering numbers\<close>

text \<open>\<open>str(n)\<close> and the \<open>{n}\<close> of an f-string, for a Python int.\<close>

definition digit_char :: "nat \<Rightarrow> char" where
  "digit_char d = ''0123456789abcdef'' ! d"

fun str_nat :: "nat \<Rightarrow> string" where
  "str_nat n = (if n < 10 then [digit_char n] else str_nat (n div 10) @ [digit_char (n mod 10)])"

declare str_nat.simps [simp del]

definition str_int :: "int \<Rightarrow> string" where
  "str_int i = (if i < 0 then CHR ''-'' # str_nat (nat (- i)) else str_nat (nat i))"

text \<open>The two-digit fields \<open>%d\<close>, \<open>%H\<close>, \<open>%M\<close>, \<open>%S\<close> of \<open>strftime\<close>.\<close>

definition pad2 :: "nat \<Rightarrow> string" where
  "pad2 n = (if n < 10 then CHR ''0'' # str_nat n else str_nat n)"

text \<open>
  \<open>uuid.uuid4().hex[:8]\<close>: the first eight hexadecimal digits of the UUID are the first
  four of the sixteen bytes that \<open>uuid4\<close> reads from \<open>os.urandom\<close> (the version and
  variant bits sit in later bytes). The argument is those four bytes as a number.
\<close>

definition hex8 :: "nat \<Rightarrow> string" where
  "hex8 n = map (\<lambda>i. digit_char ((n div 16 ^ (7 - i)) mod 16)) [0..<8]"

section \<open>firewall\_log\_generator.py: datetime\<close>

text \<open>
  A \<open>datetime\<close> is the number of microseconds since 0001-01-01 00:00:00, the least
  \<open>datetime\<close>; the greatest is 9999-12-31 23:59:59.999999. \<open>datetime + timedelta\<close>
  raises \<open>OverflowError\<close> outside this range. \<open>timedelta(seconds=x)\<close> rounds \<open>x\<close> to
  microseconds, halves to the even neighbour.
\<close>

type_synonym datetime = int

definition dt_max :: datetime where
  "dt_max = 3652059 * 86400000000 - 1"

definition dt_valid :: "datetime \<Rightarrow> bool" where
  "dt_valid t = (0 \<le> t \<and> t \<le> dt_max)"

definition dt_add :: "datetime \<Rightarrow> int \<Rightarrow> py_error + datetime" where
  "dt_add t d = (if 0 \<le> t + d \<and> t + d \<le> dt_max then Inr (t + d) else Inl OverflowError)"

definition round_half_even :: "real \<Rightarrow> int" where
  "round_half_even x =
     (let f = \<lfloor>x\<rfloor>; d = x - of_int f
      in if d < 1 / 2 then f else if 1 / 2 < d then f + 1 else if even f then f else f + 1)"

definition timedelta_seconds :: "real \<Rightarrow> int" where
  "timedelta_seconds x = round_half_even (x * 1000000)"

text \<open>The calendar of the library: \<open>_is_leap\<close>, \<open>_days_before_year\<close>, \<open>_ord2ymd\<close>, \<open>_ymd2ord\<close>.\<close>

definition is_leap :: "nat \<Rightarrow> bool" where
  "is_leap y = (y mod 4 = 0 \<and> (y mod 100 \<noteq> 0 \<or> y mod 400 = 0))"

definition DAYS_IN_MONTH :: "nat list" where
  "DAYS_IN_MONTH = [0, 31, 28, 31, 30, 31, 30, 31, 31, 30, 31, 30, 31]"

definition DAYS_BEFORE_MONTH :: "nat list" where
  "DAYS_BEFORE_MONTH = [0, 0, 31, 59, 90, 120, 151, 181, 212, 243, 273, 304, 334]"

definition days_before_year :: "nat \<Rightarrow> nat" where
  "days_before_year year = (let y = year - 1 in y * 365 + y div 4 - y div 100 + y div 400)"

definition days_in_month :: "nat \<Rightarrow> nat \<Rightarrow> nat" where
  "days_in_month year month =
     (if month = 2 \<and> is_leap year then 29 else DAYS_IN_MONTH ! month)"

definition days_before_month :: "nat \<Rightarrow> nat \<Rightarrow> nat" where
  "days_before_month year month =
     DAYS_BEFORE_MONTH ! month + (if 2 < month \<and> is_leap year then 1 else 0)"

definition ymd2ord :: "nat \<Rightarrow> nat \<Rightarrow> nat \<Rightarrow> nat" where
  "ymd2ord year month day = days_before_year year + days_before_month year month + day"

definition ord2ymd :: "nat \<Rightarrow> nat \<times> nat \<times> nat" where
  "ord2ymd ordinal =
     (let n = ordinal - 1;
          n400 = n div 146097; n = n mod 146097;
          n100 = n div 36524; n = n mod 36524;
          n4 = n div 1461; n = n mod 1461;
          n1 = n div 365; n = n mod 365;
          year = n400 * 400 + 1 + n100 * 100 + n4 * 4 + n1
      in if n1 = 4 \<or> n100 = 4 then (year - 1, 12, 31)
         else (let leapyear = (n1 = 3 \<and> (n4 \<noteq> 24 \<or> n100 = 3));
                   month = (n + 50) div 32;
                   preceding = DAYS_BEFORE_MONTH ! month + (if 2 < month \<and> leapyear then 1 else 0)
               in if n < preceding
                  then (let month' = month - 1;
                            preceding' = preceding
                              - (DAYS_IN_MONTH ! month' + (if month' = 2 \<and> leapyear then 1 else 0))
                        in (year, month', n - preceding' + 1))
                  else (year, month, n - preceding + 1)))"

definition dt_ymd :: "datetime \<Rightarrow> nat \<times> nat \<times> nat" where
  "dt_ymd t = ord2ymd (nat (t div 86400000000) + 1)"

definition dt_second_of_day :: "datetime \<Rightarrow> nat" where
  "dt_second_of_day t = nat ((t div 1000000) mod 86400)"

definition MONTH_ABBR :: "string list" where
  "MONTH_ABBR = ['''', ''Jan'', ''Feb'', ''Mar'', ''Apr'', ''May'', ''Jun'',
                 ''Jul'', ''Aug'', ''Sep'', ''Oct'', ''Nov'', ''Dec'']"

text \<open>\<open>ts.strftime("%b %d %H:%M:%S")\<close>, with the month names of the C locale.\<close>

definition format_syslog_ts :: "datetime \<Rightarrow> string" where
  "format_syslog_ts ts =
     (let (year, month, day) = dt_ymd ts; sec = dt_second_of_day ts
      in MONTH_ABBR ! month @ '' '' @ pad2 day @ '' ''
         @ pad2 (sec div 3600) @ '':'' @ pad2 ((sec div 60) mod 60) @ '':'' @ pad2 (sec mod 60))"

section \<open>firewall\_log\_generator.py: random\_ipv4\<close>

text \<open>
  The three networks of \<open>nets\<close>, in the order of the source, each as the number of its
  network address and its \<open>num_addresses\<close>: what \<open>ipaddress.ip_network\<close> makes of
  "10.0.0.0/8", "192.168.0.0/16" and "172.16.0.0/12".
\<close>

definition nets :: "(int \<times> int) list" where
  "nets = [(10 * 2 ^ 24, 2 ^ 24), (192 * 2 ^ 24 + 168 * 2 ^ 16, 2 ^ 16),
           (172 * 2 ^ 24 + 16 * 2 ^ 16, 2 ^ 20)]"

text \<open>The f-string \<open>"{a}.{b}.{c}.{d}"\<close>, and \<open>str(IPv4Address(n))\<close> for \<open>0 \<le> n < 2 ^ 32\<close>.\<close>

definition dotted :: "int \<Rightarrow> int \<Rightarrow> int \<Rightarrow> int \<Rightarrow> string" where
  "dotted a b c d = str_int a @ ''.'' @ str_int b @ ''.'' @ str_int c @ ''.'' @ str_int d"

definition ipv4_str :: "int \<Rightarrow> string" where
  "ipv4_str n = dotted (n div 2 ^ 24) ((n div 2 ^ 16) mod 256) ((n div 2 ^ 8) mod 256) (n mod 256)"

text \<open>The \<open>while True\<close> loop of the public branch; it need not end, so it is partial.\<close>

partial_function (option) public_ipv4 :: "'s rng \<Rightarrow> 's \<Rightarrow> (string \<times> 's) option" where
  "public_ipv4 R s =
     (let (a, s1) = randint R 1 254 s;
          (b, s2) = randint R 0 254 s1;
          (c, s3) = randint R 0 254 s2;
          (d, s4) = randint R 1 254 s3
      in if \<not> (a = 10 \<or> (a = 192 \<and> b = 168) \<or> (a = 172 \<and> 16 \<le> b \<and> b \<le> 31))
         then Some (dotted a b c d, s4)
         else public_ipv4 R s4)"

definition private_ipv4 :: "'s rng \<Rightarrow> 's \<Rightarrow> string \<times> 's" where
  "private_ipv4 R s =
     (let (net, s1) = choice R nets s;
          (k, s2) = randint R 1 (snd net - 2) s1
      in (ipv4_str (fst net + k), s2))"

definition random_ipv4 :: "'s rng \<Rightarrow> real \<Rightarrow> 's \<Rightarrow> (string \<times> 's) option" where
  "random_ipv4 R private_bias s =
     (let (r, s1) = rnd_random R s
      in if r < private_bias then Some (private_ipv4 R s1) else public_ipv4 R s1)"

section \<open>firewall\_log\_generator.py: make\_log\_line and generate\_logs\<close>

definition SEVERITY :: "(string \<times> real) list" where
  "SEVERITY = [(''INFO'', 70 / 100), (''NOTICE'', 10 / 100), (''WARNING'', 12 / 100),
               (''ERROR'', 6 / 100), (''CRITICAL'', 2 / 100)]"

definition ACTIONS :: "string list" where
  "ACTIONS = [''ACCEPT'', ''DROP'', ''REJECT'']"

definition PROTOCOLS :: "string list" where
  "PROTOCOLS = [''TCP'', ''UDP'', ''ICMP'', ''GRE'', ''ESP'']"

definition INTERFACES :: "string list" where
  "INTERFACES = [''eth0'', ''eth1'', ''wan0'', ''lan0'', ''dmz0'']"

definition REASONS_INFO :: "string list" where
  "REASONS_INFO = [''Connection established'', ''Connection closed'',
     ''NAT translation success'', ''Policy matched'', ''Session aged out'',
     ''Health check passed'']"

definition REASONS_WARN :: "string list" where
  "REASONS_WARN = [''Suspicious connection rate'', ''Unexpected packet'',
     ''Possible policy mismatch'', ''Malformed packet'', ''IP spoofing suspected'']"

definition REASONS_ERROR :: "string list" where
  "REASONS_ERROR = [''Policy violation'', ''Intrusion detected'', ''Configuration error'',
     ''Resource exhausted'', ''Authentication failure'', ''Firewall rule conflict'']"

definition DPORTS :: "int list" where
  "DPORTS = [22, 80, 443, 53, 8080, 3389, 5000, 514, 3306, 1433]"

text \<open>The characters \<open>"\r\n\t\x0b\x0c"\<close> that the sanitizing step removes.\<close>

definition CONTROL :: "char list" where
  "CONTROL = [CHR 0x0D, CHR 0x0A, CHR 0x09, CHR 0x0B, CHR 0x0C]"

text \<open>
  The whitespace of \<open>str.strip\<close>, \<open>str.rstrip\<close> and \<open>str.split\<close> among the code points
  below 256: the characters for which \<open>str.isspace\<close> holds.
\<close>

definition is_space :: "char \<Rightarrow> bool" where
  "is_space c = (c \<in> set [CHR 0x09, CHR 0x0A, CHR 0x0B, CHR 0x0C, CHR 0x0D, CHR 0x1C,
                            CHR 0x1D, CHR 0x1E, CHR 0x1F, CHR 0x20, CHR 0x85, CHR 0xA0])"

definition rstrip :: "string \<Rightarrow> string" where
  "rstrip s = rev (dropWhile is_space (rev s))"

definition strip :: "string \<Rightarrow> string" where
  "strip s = rev (dropWhile is_space (rev (dropWhile is_space s)))"

text \<open>
  The state of a run is the state of the seeded generator together with the number of
  calls of \<open>uuid4\<close> made so far: \<open>uuid4\<close> reads \<open>os.urandom\<close>, here the function \<open>U\<close>
  from the number of the call to the first four bytes read, not the module \<open>random\<close>.
  \<open>None\<close> is a run whose rejection loop does not end.

  \<open>make_log_line\<close> first draws the fields of the record, in the order of the source,
  then formats them.
\<close>

record fields =
  f_sev :: string
  f_proto :: string
  f_s_ip :: string
  f_d_ip :: string
  f_s_pt :: int
  f_d_pt :: int
  f_in_if :: string
  f_out_if :: string
  f_action :: string
  f_bytes_cnt :: int
  f_pkts :: int
  f_rule :: int
  f_uid :: string
  f_reason :: string

definition draw_fields ::
  "'s rng \<Rightarrow> (nat \<Rightarrow> nat) \<Rightarrow> 's \<times> nat \<Rightarrow> (py_error + fields \<times> 's \<times> nat) option" where
  "draw_fields R U st =
     (let (s0, u) = st;
          (sev_or_error, s1) = weighted_choice R SEVERITY s0
      in case sev_or_error of
           Inl e \<Rightarrow> Some (Inl e)
         | Inr sev \<Rightarrow>
             (let (proto, s2) = choice R PROTOCOLS s1
              in do {
                (s_ip, s3) \<leftarrow> random_ipv4 R (6 / 10) s2;
                (d_ip, s4) \<leftarrow> random_ipv4 R (3 / 10) s3;
                let (s_pt, s5) = (if proto \<in> set [''TCP'', ''UDP'']
                                  then randint R 1 65535 s4 else (0, s4));
                let (d_pt, s6) = (if proto \<in> set [''TCP'', ''UDP'']
                                  then choice R DPORTS s5 else (0, s5));
                let (in_if, s7) = choice R INTERFACES s6;
                let (out_if, s8) = choice R INTERFACES s7;
                let (action, s9) = choices_one R ACTIONS [6 / 10, 3 / 10, 1 / 10] s8;
                let (bytes_cnt, s10) = randint R 0 15000 s9;
                let (pkts, s11) = (if 0 < bytes_cnt
                                   then (let (dv, s') = randint R 60 120 s10
                                         in (max 1 (bytes_cnt div dv), s'))
                                   else randint R 0 4 s10);
                let (rule, s12) = randint R 100 3999 s11;
                let uid = hex8 (U u);
                let (reason, s13) =
                      (if sev \<in> set [''INFO'', ''NOTICE''] then choice R REASONS_INFO s12
                       else if sev = ''WARNING'' then choice R REASONS_WARN s12
                       else choice R REASONS_ERROR s12);
                Some (Inr (\<lparr>f_sev = sev, f_proto = proto, f_s_ip = s_ip, f_d_ip = d_ip, f_s_pt = s_pt,
                            f_d_pt = d_pt, f_in_if = in_if, f_out_if = out_if, f_action = action,
                            f_bytes_cnt = bytes_cnt, f_pkts = pkts, f_rule = rule, f_uid = uid,
                            f_reason = reason\<rparr>, s13, Suc u))
              }))"

definition message :: "fields \<Rightarrow> string" where
  "message f =
     ''%FW-'' @ f_sev f @ ''-*.'' @ str_int (f_rule f) @ '': '' @ f_reason f
     @ ''; src='' @ f_s_ip f @ '' dst='' @ f_d_ip f @ '' proto='' @ f_proto f @ '' ''
     @ ''spt='' @ str_int (f_s_pt f) @ '' dpt='' @ str_int (f_d_pt f)
     @ '' action='' @ f_action f @ '' bytes='' @ str_int (f_bytes_cnt f)
     @ '' pkts='' @ str_int (f_pkts f) @ '' ''
     @ ''rule='' @ str_int (f_rule f) @ '' in='' @ f_in_if f @ '' out='' @ f_out_if f
     @ '' uid='' @ f_uid f"

definition safe_message :: "fields \<Rightarrow> string" where
  "safe_message f = filter (\<lambda>ch. ch \<notin> set CONTROL) (message f)"

definition format_line :: "datetime \<Rightarrow> string \<Rightarrow> int \<Rightarrow> fields \<Rightarrow> string" where
  "format_line ts host pid f =
     format_syslog_ts ts @ '' '' @ host @ '' firewall['' @ str_int pid @ '']: '' @ safe_message f"

definition make_log_line ::
  "'s rng \<Rightarrow> (nat \<Rightarrow> nat) \<Rightarrow> datetime \<Rightarrow> string \<Rightarrow> int \<Rightarrow> 's \<times> nat
     \<Rightarrow> (py_error + string \<times> 's \<times> nat) option" where
  "make_log_line R U ts host pid st =
     map_option (map_sum id (\<lambda>(f, st'). (format_line ts host pid f, st'))) (draw_fields R U st)"

text \<open>
  The contract of the library for the primitives: \<open>random()\<close> lies in \<open>[0, 1)\<close>,
  \<open>_randbelow(n)\<close> is below \<open>n\<close>, and \<open>expovariate\<close> with a positive rate is not
  negative.
\<close>

definition rng_ok :: "'s rng \<Rightarrow> bool" where
  "rng_ok R =
     ((\<forall>s. 0 \<le> fst (rnd_random R s) \<and> fst (rnd_random R s) < 1)
      \<and> (\<forall>n s. 0 < n \<longrightarrow> fst (rnd_below R n s) < n)
      \<and> (\<forall>lambd s. 0 < lambd \<longrightarrow> 0 \<le> fst (rnd_expovariate R lambd s)))"

text \<open>The rejection loop of \<open>random_ipv4\<close> ends from every state of the generator.\<close>

definition public_terminates :: "'s rng \<Rightarrow> bool" where
  "public_terminates R = (\<forall>s. public_ipv4 R s \<noteq> None)"

text \<open>
  The same as a condition on the random source alone. One pass of the loop draws four
  octets; the pass is rejected when they lie in a reserved block; \<open>skip_draws R k s\<close> is
  the state of the source after \<open>k\<close> passes from \<open>s\<close>. The source does not draw reserved
  octets for ever: from every state some pass draws octets that are not reserved.
\<close>

definition draw_octets :: "'s rng \<Rightarrow> 's \<Rightarrow> (int \<times> int \<times> int \<times> int) \<times> 's" where
  "draw_octets R s =
     (let (a, s1) = randint R 1 254 s;
          (b, s2) = randint R 0 254 s1;
          (c, s3) = randint R 0 254 s2;
          (d, s4) = randint R 1 254 s3
      in ((a, b, c, d), s4))"

definition rejected :: "int \<times> int \<times> int \<times> int \<Rightarrow> bool" where
  "rejected q =
     (case q of (a, b, c, d) \<Rightarrow> a = 10 \<or> (a = 192 \<and> b = 168) \<or> (a = 172 \<and> 16 \<le> b \<and> b \<le> 31))"

fun skip_draws :: "'s rng \<Rightarrow> nat \<Rightarrow> 's \<Rightarrow> 's" where
  "skip_draws R 0 s = s"
| "skip_draws R (Suc k) s = skip_draws R k (snd (draw_octets R s))"

definition eventually_public :: "'s rng \<Rightarrow> bool" where
  "eventually_public R =
     (\<forall>s. \<exists>k. \<not> rejected (fst (draw_octets R (skip_draws R k s))))"

text \<open>
  What lies outside the program: the clock behind \<open>datetime.now()\<close>, the bytes of
  \<open>os.urandom\<close> behind \<open>uuid4\<close>, and the state that \<open>random.seed(None)\<close> takes from
  the operating system.
\<close>

record 's env =
  env_now :: datetime
  env_urandom :: "nat \<Rightarrow> nat"
  env_seed_state :: 's

text \<open>
  The \<open>for _ in range(count)\<close> loop, inside \<open>with open(out_path, "w") as f\<close>. It returns
  the records written, each with the \<open>ts\<close> it was made at, and the exception that ended
  the loop, if one did. The file is opened before the loop, and the \<open>with\<close> block closes
  it also when an exception passes through: the records written before the exception
  are in the file. \<open>None\<close> is a run that does not end.
\<close>

fun gen_run ::
  "'s rng \<Rightarrow> (nat \<Rightarrow> nat) \<Rightarrow> string \<Rightarrow> int \<Rightarrow> nat \<Rightarrow> datetime \<Rightarrow> 's \<times> nat
     \<Rightarrow> ((datetime \<times> string) list \<times> py_error option) option" where
  "gen_run R U host pid 0 ts st = Some ([], None)"
| "gen_run R U host pid (Suc n) ts st =
     (let (x, s1) = rnd_expovariate R (1 / (12 / 10)) (fst st)
      in case dt_add ts (timedelta_seconds x) of
           Inl e \<Rightarrow> Some ([], Some e)
         | Inr ts' \<Rightarrow>
             (case make_log_line R U ts' host pid (s1, snd st) of
                None \<Rightarrow> None
              | Some (Inl e) \<Rightarrow> Some ([], Some e)
              | Some (Inr (line, st')) \<Rightarrow>
                  (case gen_run R U host pid n ts' st' of
                     None \<Rightarrow> None
                   | Some (rest, err) \<Rightarrow> Some ((ts', rstrip line @ [CHR 0x0A]) # rest, err))))"

text \<open>
  \<open>generate_logs\<close> up to the end of its \<open>with\<close> block: the records in the file, and the
  exception that the call raises, if any.
\<close>

definition generate_run ::
  "'s rng \<Rightarrow> 's env \<Rightarrow> int \<Rightarrow> datetime option \<Rightarrow> int option
     \<Rightarrow> ((datetime \<times> string) list \<times> py_error option) option" where
  "generate_run R E count start_time seed =
     (let s0 = (case seed of None \<Rightarrow> env_seed_state E | Some n \<Rightarrow> rnd_seed R n);
          ts = (case start_time of None \<Rightarrow> env_now E | Some t \<Rightarrow> t);
          host = ''fw01.corp.example.com'';
          (pid, s1) = randint R 1000 9999 s0
      in gen_run R (env_urandom E) host pid (nat count) ts (s1, 0))"

text \<open>The contents of the file at \<open>out_path\<close> when the call has ended, however it ended.\<close>

definition written_file ::
  "'s rng \<Rightarrow> 's env \<Rightarrow> int \<Rightarrow> datetime option \<Rightarrow> int option \<Rightarrow> string option" where
  "written_file R E count start_time seed =
     map_option (\<lambda>r. concat (map snd (fst r))) (generate_run R E count start_time seed)"

text \<open>
  What a caller sees of a run: the exception, or else what the run has made. For a run
  that completes this is all its records (and the whole file).
\<close>

definition outcome :: "'a \<times> py_error option \<Rightarrow> py_error + 'a" where
  "outcome r = (case snd r of None \<Rightarrow> Inr (fst r) | Some e \<Rightarrow> Inl e)"

definition gen_loop ::
  "'s rng \<Rightarrow> (nat \<Rightarrow> nat) \<Rightarrow> string \<Rightarrow> int \<Rightarrow> nat \<Rightarrow> datetime \<Rightarrow> 's \<times> nat
     \<Rightarrow> (py_error + (datetime \<times> string) list) option" where
  "gen_loop R U host pid n ts st = map_option outcome (gen_run R U host pid n ts st)"

definition generate_records ::
  "'s rng \<Rightarrow> 's env \<Rightarrow> int \<Rightarrow> datetime option \<Rightarrow> int option
     \<Rightarrow> (py_error + (datetime \<times> string) list) option" where
  "generate_records R E count start_time seed =
     map_option outcome (generate_run R E count start_time seed)"

definition generate_logs ::
  "'s rng \<Rightarrow> 's env \<Rightarrow> int \<Rightarrow> datetime option \<Rightarrow> int option \<Rightarrow> (py_error + string) option" where
  "generate_logs R E count start_time seed =
     map_option (map_sum id (\<lambda>records. concat (map snd records)))
       (generate_records R E count start_time seed)"

section \<open>log\_summarizer.py: characters and patterns\<close>

text \<open>
  A line is a \<open>string\<close> whose characters are the code points below 256 of a Python
  \<open>str\<close>. Among them \<open>\d\<close> matches the ten ASCII digits, and \<open>\w\<close> the ASCII letters
  and digits, the underscore, and the letters and numerals of Latin-1.
\<close>

definition is_digit :: "char \<Rightarrow> bool" where
  "is_digit c = (c \<in> set ''0123456789'')"

definition is_word :: "char \<Rightarrow> bool" where
  "is_word c =
     (let n = (of_char c :: nat)
      in (48 \<le> n \<and> n \<le> 57) \<or> (65 \<le> n \<and> n \<le> 90) \<or> n = 95 \<or> (97 \<le> n \<and> n \<le> 122)
         \<or> n \<in> set [0xAA, 0xB2, 0xB3, 0xB5, 0xB9, 0xBA, 0xBC, 0xBD, 0xBE]
         \<or> (0xC0 \<le> n \<and> n \<le> 0xD6) \<or> (0xD8 \<le> n \<and> n \<le> 0xF6) \<or> 0xF8 \<le> n)"

text \<open>\<open>str.lower\<close>, character by character.\<close>

definition lower_char :: "char \<Rightarrow> char" where
  "lower_char c =
     (let n = (of_char c :: nat)
      in if (65 \<le> n \<and> n \<le> 90) \<or> (0xC0 \<le> n \<and> n \<le> 0xDE \<and> n \<noteq> 0xD7)
         then char_of (n + 32) else c)"

definition lower :: "string \<Rightarrow> string" where
  "lower s = map lower_char s"

text \<open>\<open>needle in haystack\<close> for two strings.\<close>

definition contains :: "string \<Rightarrow> string \<Rightarrow> bool" where
  "contains haystack needle =
     list_ex (\<lambda>i. take (length needle) (drop i haystack) = needle) [0..<Suc (length haystack)]"

text \<open>
  \<open>\b\<close> at position \<open>p\<close> of \<open>s\<close>: exactly one of the characters before and after the
  position is a word character, the ends of the string counting as none.
\<close>

definition word_boundary :: "string \<Rightarrow> nat \<Rightarrow> bool" where
  "word_boundary s p =
     ((0 < p \<and> p \<le> length s \<and> is_word (s ! (p - 1))) \<noteq> (p < length s \<and> is_word (s ! p)))"

text \<open>
  \<open>TIMESTAMP_PATTERN\<close> between its two \<open>\b\<close>: nineteen characters, each with its class.
\<close>

definition TIMESTAMP_PATTERN :: "(char \<Rightarrow> bool) list" where
  "TIMESTAMP_PATTERN =
     [is_digit, is_digit, is_digit, is_digit, (\<lambda>c. c = CHR ''-''), is_digit, is_digit,
      (\<lambda>c. c = CHR ''-''), is_digit, is_digit, (\<lambda>c. c = CHR '' '' \<or> c = CHR ''T''),
      is_digit, is_digit, (\<lambda>c. c = CHR '':''), is_digit, is_digit, (\<lambda>c. c = CHR '':''),
      is_digit, is_digit]"

definition timestamp_match_at :: "string \<Rightarrow> nat \<Rightarrow> bool" where
  "timestamp_match_at s i =
     (word_boundary s i
      \<and> list_all2 (\<lambda>p c. p c) TIMESTAMP_PATTERN (take 19 (drop i s))
      \<and> word_boundary s (i + 19))"

text \<open>\<open>TIMESTAMP_PATTERN.search(line)\<close> and its \<open>group(1)\<close>: the leftmost match.\<close>

definition timestamp_search :: "string \<Rightarrow> string option" where
  "timestamp_search s =
     map_option (\<lambda>i. take 19 (drop i s)) (find (timestamp_match_at s) [0..<Suc (length s)])"

text \<open>
  \<open>LEVEL_PATTERN\<close>: at a position the alternatives are tried in the order written, each
  followed by \<open>\b\<close>; the search takes the leftmost position where one succeeds.
\<close>

definition LEVELS :: "string list" where
  "LEVELS = [''INFO'', ''WARN'', ''WARNING'', ''ERROR'', ''DEBUG'', ''CRITICAL'']"

definition level_match_at :: "string \<Rightarrow> nat \<Rightarrow> string option" where
  "level_match_at s i =
     (if word_boundary s i
      then find (\<lambda>w. take (length w) (drop i s) = w \<and> word_boundary s (i + length w)) LEVELS
      else None)"

definition level_search :: "string \<Rightarrow> string option" where
  "level_search s =
     (case find (\<lambda>i. level_match_at s i \<noteq> None) [0..<Suc (length s)] of
        None \<Rightarrow> None
      | Some i \<Rightarrow> level_match_at s i)"

definition parse_log_line :: "string \<Rightarrow> string option \<times> string \<times> string" where
  "parse_log_line line =
     (let ts_match = timestamp_search line;
          level_match = level_search line;
          level = (case level_match of Some l \<Rightarrow> l | None \<Rightarrow> ''UNKNOWN'');
          message = strip line
      in (ts_match, level, message))"

section \<open>log\_summarizer.py: datetime.fromisoformat\<close>

text \<open>
  \<open>datetime.fromisoformat\<close> on the only form the pattern lets through, nineteen
  characters \<open>YYYY-MM-DD HH:MM:SS\<close>: the fields are checked as the constructor of
  \<open>datetime\<close> checks them, and \<open>ValueError\<close> is raised when one is out of range.
\<close>

definition dec_val :: "string \<Rightarrow> nat" where
  "dec_val s = foldl (\<lambda>a c. 10 * a + (of_char c - 48)) 0 s"

definition ISO_FORM :: "(char \<Rightarrow> bool) list" where
  "ISO_FORM =
     [is_digit, is_digit, is_digit, is_digit, (\<lambda>c. c = CHR ''-''), is_digit, is_digit,
      (\<lambda>c. c = CHR ''-''), is_digit, is_digit, (\<lambda>c. c = CHR '' ''),
      is_digit, is_digit, (\<lambda>c. c = CHR '':''), is_digit, is_digit, (\<lambda>c. c = CHR '':''),
      is_digit, is_digit]"

definition fromisoformat :: "string \<Rightarrow> py_error + datetime" where
  "fromisoformat s =
     (if \<not> list_all2 (\<lambda>p c. p c) ISO_FORM s then Inl ValueError
      else (let year = dec_val (take 4 s);
                month = dec_val (take 2 (drop 5 s));
                day = dec_val (take 2 (drop 8 s));
                hour = dec_val (take 2 (drop 11 s));
                minute = dec_val (take 2 (drop 14 s));
                second = dec_val (take 2 (drop 17 s))
            in if year < 1 \<or> month < 1 \<or> 12 < month \<or> day < 1
                  \<or> days_in_month year month < day
                  \<or> 23 < hour \<or> 59 < minute \<or> 59 < second
               then Inl ValueError
               else Inr (int (((ymd2ord year month day - 1) * 86400
                                + hour * 3600 + minute * 60 + second) * 1000000))))"

text \<open>\<open>ts.replace("T", " ")\<close>.\<close>

definition replace_T :: "string \<Rightarrow> string" where
  "replace_T s = map (\<lambda>c. if c = CHR ''T'' then CHR '' '' else c) s"

section \<open>log\_summarizer.py: summarize\_log\<close>

text \<open>\<open>str.split()\<close>: the maximal runs of characters that are not whitespace.\<close>

fun split_from :: "string \<Rightarrow> string \<Rightarrow> string list" where
  "split_from cur [] = (if cur = [] then [] else [cur])"
| "split_from cur (c # cs) =
     (if is_space c then (if cur = [] then split_from [] cs else cur # split_from [] cs)
      else split_from (cur @ [c]) cs)"

definition split :: "string \<Rightarrow> string list" where
  "split s = split_from [] s"

text \<open>\<open>" ".join(words)\<close>.\<close>

fun join_space :: "string list \<Rightarrow> string" where
  "join_space [] = []"
| "join_space [w] = w"
| "join_space (w # ws) = w @ '' '' @ join_space ws"

text \<open>\<open>" ".join(msg.split()[1:8])\<close>.\<close>

definition short_msg :: "string \<Rightarrow> string" where
  "short_msg msg = join_space (take 7 (drop 1 (split msg)))"

text \<open>
  A \<open>Counter\<close> (and the \<open>defaultdict(int)\<close>) keeps its keys in the order of their first
  insertion: a list of keys with their counts. \<open>counter[k] += 1\<close>:
\<close>

fun counter_incr :: "'k \<Rightarrow> ('k \<times> nat) list \<Rightarrow> ('k \<times> nat) list" where
  "counter_incr k [] = [(k, 1)]"
| "counter_incr k ((k', n) # rest) =
     (if k = k' then (k', n + 1) # rest else (k', n) # counter_incr k rest)"

definition counter_get :: "('k \<times> nat) list \<Rightarrow> 'k \<Rightarrow> nat" where
  "counter_get m k = (case map_of m k of None \<Rightarrow> 0 | Some n \<Rightarrow> n)"

record summary =
  level_counts :: "(string \<times> nat) list"
  error_messages :: "(string \<times> nat) list"
  total_lines :: nat
  first_ts :: "datetime option"
  last_ts :: "datetime option"

definition initial_summary :: summary where
  "initial_summary =
     \<lparr>level_counts = [], error_messages = [], total_lines = 0, first_ts = None, last_ts = None\<rparr>"

text \<open>
  The body of \<open>for line in f\<close>. The bounds \<open>start_date\<close> and \<open>end_date\<close> are datetimes
  without a time zone, as the documented form \<open>YYYY-MM-DD HH:MM:SS\<close> of \<open>--start\<close> and
  \<open>--end\<close> gives them; an empty keyword filters nothing, like \<open>None\<close>. First the end of
  the body, from the keyword test on, which a line reaches unless a \<open>continue\<close> of the
  date window skips it.
\<close>

definition after_window :: "string option \<Rightarrow> string \<Rightarrow> string \<Rightarrow> summary \<Rightarrow> summary" where
  "after_window keyword level msg st =
     (if (case keyword of None \<Rightarrow> False
          | Some k \<Rightarrow> k \<noteq> [] \<and> \<not> contains (lower msg) (lower k))
      then st
      else if level \<in> set [''ERROR'', ''CRITICAL'']
      then st\<lparr>error_messages := counter_incr (short_msg msg) (error_messages st)\<rparr>
      else st)"

definition summarize_line ::
  "string option \<Rightarrow> datetime option \<Rightarrow> datetime option \<Rightarrow> summary \<Rightarrow> string
     \<Rightarrow> py_error + summary" where
  "summarize_line keyword start_date end_date st line =
     (let st1 = st\<lparr>total_lines := total_lines st + 1\<rparr>;
          (ts, level, msg) = parse_log_line line;
          st2 = st1\<lparr>level_counts := counter_incr level (level_counts st1)\<rparr>
      in case ts of
           None \<Rightarrow> Inr (after_window keyword level msg st2)
         | Some t \<Rightarrow>
             (case fromisoformat (replace_T t) of
                Inl e \<Rightarrow> Inl e
              | Inr ts_obj \<Rightarrow>
                  (let st3 = st2\<lparr>first_ts := (if first_ts st2 = None then Some ts_obj
                                                else first_ts st2),
                                  last_ts := Some ts_obj\<rparr>
                   in if (case start_date of None \<Rightarrow> False | Some b \<Rightarrow> ts_obj < b) then Inr st3
                      else if (case end_date of None \<Rightarrow> False | Some b \<Rightarrow> b < ts_obj) then Inr st3
                      else Inr (after_window keyword level msg st3))))"

fun summarize_loop ::
  "string option \<Rightarrow> datetime option \<Rightarrow> datetime option \<Rightarrow> summary \<Rightarrow> string list
     \<Rightarrow> py_error + summary" where
  "summarize_loop keyword start_date end_date st [] = Inr st"
| "summarize_loop keyword start_date end_date st (line # rest) =
     (case summarize_line keyword start_date end_date st line of
        Inl e \<Rightarrow> Inl e
      | Inr st' \<Rightarrow> summarize_loop keyword start_date end_date st' rest)"

text \<open>
  The lines that iterating over a file opened in text mode yields: every line break
  (\<open>\n\<close>, \<open>\r\<close> or \<open>\r\n\<close>) becomes \<open>\n\<close> and ends a line; the last line may have none.
\<close>

fun read_lines_from :: "string \<Rightarrow> string \<Rightarrow> string list" where
  "read_lines_from cur [] = (if cur = [] then [] else [cur])"
| "read_lines_from cur [c] =
     (if c = CHR 0x0A \<or> c = CHR 0x0D then [cur @ [CHR 0x0A]] else [cur @ [c]])"
| "read_lines_from cur (c # c' # cs) =
     (if c = CHR 0x0A then (cur @ [CHR 0x0A]) # read_lines_from [] (c' # cs)
      else if c = CHR 0x0D
      then (if c' = CHR 0x0A then (cur @ [CHR 0x0A]) # read_lines_from [] cs
            else (cur @ [CHR 0x0A]) # read_lines_from [] (c' # cs))
      else read_lines_from (cur @ [c]) (c' # cs))"

definition read_lines :: "string \<Rightarrow> string list" where
  "read_lines content = read_lines_from [] content"

text \<open>\<open>str(ts)\<close> for a datetime: \<open>YYYY-MM-DD HH:MM:SS\<close>, then the microseconds if any.\<close>

definition zero_pad :: "nat \<Rightarrow> nat \<Rightarrow> string" where
  "zero_pad width n = replicate (width - length (str_nat n)) CHR ''0'' @ str_nat n"

definition str_datetime :: "datetime \<Rightarrow> string" where
  "str_datetime t =
     (let (year, month, day) = dt_ymd t; sec = dt_second_of_day t; us = nat (t mod 1000000)
      in zero_pad 4 year @ ''-'' @ zero_pad 2 month @ ''-'' @ zero_pad 2 day @ '' ''
         @ zero_pad 2 (sec div 3600) @ '':'' @ zero_pad 2 ((sec div 60) mod 60) @ '':''
         @ zero_pad 2 (sec mod 60) @ (if us = 0 then [] else ''.'' @ zero_pad 6 us))"

text \<open>
  The report. The arrow of the time span is written as the three bytes of its UTF-8
  encoding. \<open>most_common(5)\<close> sorts by decreasing count, keeping the order of first
  insertion among equal counts.
\<close>

definition time_span_line :: "summary \<Rightarrow> string" where
  "time_span_line st =
     (case first_ts st of
        None \<Rightarrow> ''Time span: N/A''
      | Some f \<Rightarrow> ''Time span: '' @ str_datetime f @ [CHR '' '', CHR 0xE2, CHR 0x86, CHR 0x92, CHR '' '']
                  @ (case last_ts st of None \<Rightarrow> ''None'' | Some l \<Rightarrow> str_datetime l))"

definition header_lines :: "string \<Rightarrow> summary \<Rightarrow> string list" where
  "header_lines file_path st =
     [''===== LOG SUMMARY ====='', ''File: '' @ file_path, time_span_line st,
      ''Total lines processed: '' @ str_nat (total_lines st), [], ''Log Level Counts:'']
     @ map (\<lambda>(level, count). ''  '' @ level @ '': '' @ str_nat count) (level_counts st)"

definition most_common :: "nat \<Rightarrow> ('k \<times> nat) list \<Rightarrow> ('k \<times> nat) list" where
  "most_common n m = take n (sort_key (\<lambda>(k, c). - int c) m)"

definition top_lines :: "summary \<Rightarrow> string list" where
  "top_lines st =
     (CHR 0x0A # ''Top 5 Repeated Error Messages:'')
     # map (\<lambda>(msg, count). ''  ('' @ str_nat count @ ''x) '' @ msg)
         (most_common 5 (error_messages st))"

fun join_lines :: "string list \<Rightarrow> string" where
  "join_lines [] = []"
| "join_lines [l] = l"
| "join_lines (l # ls) = l @ [CHR 0x0A] @ join_lines ls"

definition summary_text :: "string \<Rightarrow> summary \<Rightarrow> string" where
  "summary_text file_path st = join_lines (header_lines file_path st @ top_lines st)"

text \<open>
  \<open>summarize_log\<close> on a file with the given contents: the aggregates of the pass, or
  the exception that ends it. The report is \<open>summary_text\<close> of the aggregates.
\<close>

definition summarize_log ::
  "string \<Rightarrow> string option \<Rightarrow> datetime option \<Rightarrow> datetime option \<Rightarrow> py_error + summary" where
  "summarize_log content keyword start_date end_date =
     summarize_loop keyword start_date end_date initial_summary (read_lines content)"

section \<open>Reading an address back\<close>

text \<open>
  A syntactically valid dotted quad: four decimal numbers separated by three dots, each
  of one to three ASCII digits, without a leading zero, and at most 255. Its value is
  the number of the address.
\<close>

fun split_on :: "char \<Rightarrow> string \<Rightarrow> string list" where
  "split_on sep [] = [[]]"
| "split_on sep (c # cs) =
     (if c = sep then [] # split_on sep cs
      else (case split_on sep cs of [] \<Rightarrow> [[c]] | p # ps \<Rightarrow> (c # p) # ps))"

definition octet_ok :: "string \<Rightarrow> bool" where
  "octet_ok p =
     (p \<noteq> [] \<and> length p \<le> 3 \<and> list_all is_digit p \<and> (length p = 1 \<or> hd p \<noteq> CHR ''0'')
      \<and> dec_val p \<le> 255)"

definition parse_ipv4 :: "string \<Rightarrow> int option" where
  "parse_ipv4 s =
     (case split_on CHR ''.'' s of
        [p1, p2, p3, p4] \<Rightarrow>
          if octet_ok p1 \<and> octet_ok p2 \<and> octet_ok p3 \<and> octet_ok p4
          then Some (int (dec_val p1) * 2 ^ 24 + int (dec_val p2) * 2 ^ 16
                     + int (dec_val p3) * 2 ^ 8 + int (dec_val p4))
          else None
      | _ \<Rightarrow> None)"

text \<open>
  An address inside one of the three reserved blocks, and an address strictly between
  the network address and the broadcast address of a block.
\<close>

definition in_block :: "int \<Rightarrow> int \<times> int \<Rightarrow> bool" where
  "in_block n net = (fst net \<le> n \<and> n < fst net + snd net)"

definition host_of_block :: "int \<Rightarrow> int \<times> int \<Rightarrow> bool" where
  "host_of_block n net = (fst net < n \<and> n < fst net + snd net - 1)"

text \<open>
  What the public branch returns: four numbers in the ranges drawn, not rejected.
\<close>

definition public_quad :: "string \<Rightarrow> bool" where
  "public_quad addr =
     (\<exists>a b c d. addr = dotted a b c d \<and> 1 \<le> a \<and> a \<le> 254 \<and> 0 \<le> b \<and> b \<le> 254
        \<and> 0 \<le> c \<and> c \<le> 254 \<and> 1 \<le> d \<and> d \<le> 254
        \<and> \<not> (a = 10 \<or> (a = 192 \<and> b = 168) \<or> (a = 172 \<and> 16 \<le> b \<and> b \<le> 31)))"

text \<open>
  An address that reads as a dotted quad outside every reserved block, and one that reads
  as a host of a reserved block.
\<close>

definition public_address :: "string \<Rightarrow> bool" where
  "public_address addr =
     (case parse_ipv4 addr of None \<Rightarrow> False | Some n \<Rightarrow> \<not> list_ex (in_block n) nets)"

definition private_host_address :: "string \<Rightarrow> bool" where
  "private_host_address addr =
     (case parse_ipv4 addr of None \<Rightarrow> False | Some n \<Rightarrow> list_ex (host_of_block n) nets)"

section \<open>The shape of a generated line\<close>

text \<open>A string without a hyphen and without any of the characters that are sanitized.\<close>

definition clean :: "string \<Rightarrow> bool" where
  "clean s = list_all (\<lambda>c. c \<noteq> CHR ''-'' \<and> c \<notin> set CONTROL) s"

text \<open>A digit directly followed by a hyphen somewhere in the string.\<close>

fun digit_dash :: "string \<Rightarrow> bool" where
  "digit_dash (a # b # cs) = ((is_digit a \<and> b = CHR ''-'') \<or> digit_dash (b # cs))"
| "digit_dash _ = False"

text \<open>The fields that \<open>draw_fields\<close> can return from a generator that keeps its contract.\<close>

definition fields_ok :: "fields \<Rightarrow> bool" where
  "fields_ok f =
     (f_sev f \<in> set (map fst SEVERITY) \<and> f_proto f \<in> set PROTOCOLS
      \<and> clean (f_s_ip f) \<and> clean (f_d_ip f) \<and> 0 \<le> f_s_pt f \<and> 0 \<le> f_d_pt f
      \<and> f_in_if f \<in> set INTERFACES \<and> f_out_if f \<in> set INTERFACES
      \<and> f_action f \<in> set ACTIONS \<and> 0 \<le> f_bytes_cnt f \<and> 0 \<le> f_pkts f \<and> 0 \<le> f_rule f
      \<and> f_reason f \<in> set (REASONS_INFO @ REASONS_WARN @ REASONS_ERROR))"

text \<open>
  The draws of \<open>make_log_line\<close> after the two addresses, which cannot fail to return.
\<close>

definition draw_rest ::
  "'s rng \<Rightarrow> (nat \<Rightarrow> nat) \<Rightarrow> string \<Rightarrow> string \<Rightarrow> string \<Rightarrow> string \<Rightarrow> 's \<Rightarrow> nat
     \<Rightarrow> fields \<times> 's \<times> nat" where
  "draw_rest R U sev proto s_ip d_ip s4 u =
     (let (s_pt, s5) = (if proto \<in> set [''TCP'', ''UDP'']
                        then randint R 1 65535 s4 else (0, s4));
          (d_pt, s6) = (if proto \<in> set [''TCP'', ''UDP'']
                        then choice R DPORTS s5 else (0, s5));
          (in_if, s7) = choice R INTERFACES s6;
          (out_if, s8) = choice R INTERFACES s7;
          (action, s9) = choices_one R ACTIONS [6 / 10, 3 / 10, 1 / 10] s8;
          (bytes_cnt, s10) = randint R 0 15000 s9;
          (pkts, s11) = (if 0 < bytes_cnt
                         then (let (dv, s') = randint R 60 120 s10
                               in (max 1 (bytes_cnt div dv), s'))
                         else randint R 0 4 s10);
          (rule, s12) = randint R 100 3999 s11;
          uid = hex8 (U u);
          (reason, s13) =
                (if sev \<in> set [''INFO'', ''NOTICE''] then choice R REASONS_INFO s12
                 else if sev = ''WARNING'' then choice R REASONS_WARN s12
                 else choice R REASONS_ERROR s12)
      in (\<lparr>f_sev = sev, f_proto = proto, f_s_ip = s_ip, f_d_ip = d_ip, f_s_pt = s_pt,
           f_d_pt = d_pt, f_in_if = in_if, f_out_if = out_if, f_action = action,
           f_bytes_cnt = bytes_cnt, f_pkts = pkts, f_rule = rule, f_uid = uid,
           f_reason = reason\<rparr>, s13, Suc u))"

text \<open>
  The message and the line up to, and without, the correlation id.
\<close>

definition message_head :: "fields \<Rightarrow> string" where
  "message_head f =
     ''%FW-'' @ f_sev f @ ''-*.'' @ str_int (f_rule f) @ '': '' @ f_reason f
     @ ''; src='' @ f_s_ip f @ '' dst='' @ f_d_ip f @ '' proto='' @ f_proto f @ '' ''
     @ ''spt='' @ str_int (f_s_pt f) @ '' dpt='' @ str_int (f_d_pt f)
     @ '' action='' @ f_action f @ '' bytes='' @ str_int (f_bytes_cnt f)
     @ '' pkts='' @ str_int (f_pkts f) @ '' ''
     @ ''rule='' @ str_int (f_rule f) @ '' in='' @ f_in_if f @ '' out='' @ f_out_if f
     @ '' uid=''"

definition line_head :: "datetime \<Rightarrow> string \<Rightarrow> int \<Rightarrow> fields \<Rightarrow> string" where
  "line_head ts host pid f =
     format_syslog_ts ts @ '' '' @ host @ '' firewall['' @ str_int pid @ '']: ''
     @ filter (\<lambda>ch. ch \<notin> set CONTROL) (message_head f)"

text \<open>The form \<open>Mon DD HH:MM:SS\<close> of a syslog timestamp.\<close>

definition SYSLOG_FORM :: "(char \<Rightarrow> bool) list" where
  "SYSLOG_FORM =
     [(\<lambda>c. c \<in> set ''JFMASOND''), (\<lambda>c. c \<in> set ''aepuco''), (\<lambda>c. c \<in> set ''nbrylgptvc''),
      (\<lambda>c. c = CHR '' ''), is_digit, is_digit, (\<lambda>c. c = CHR '' ''),
      is_digit, is_digit, (\<lambda>c. c = CHR '':''), is_digit, is_digit, (\<lambda>c. c = CHR '':''),
      is_digit, is_digit]"

definition syslog_form :: "string \<Rightarrow> bool" where
  "syslog_form s = (take 3 s \<in> set (tl MONTH_ABBR) \<and> list_all2 (\<lambda>p c. p c) SYSLOG_FORM s)"

text \<open>The timestamps of the records of a run, and the number of lines of a file.\<close>

definition record_times ::
  "(py_error + (datetime \<times> string) list) option \<Rightarrow> datetime list option" where
  "record_times r = (case r of Some (Inr records) \<Rightarrow> Some (map fst records) | _ \<Rightarrow> None)"

definition line_count :: "string option \<Rightarrow> nat option" where
  "line_count file = map_option (\<lambda>content. length (filter (\<lambda>c. c = CHR 0x0A) content)) file"

section \<open>What the claims about the summarizer speak of\<close>

text \<open>
  The aggregates that the filters must leave alone: the total line count, the level
  counts, and the first and last timestamp.
\<close>

definition frame :: "summary \<Rightarrow> nat \<times> (string \<times> nat) list \<times> datetime option \<times> datetime option" where
  "frame st = (total_lines st, level_counts st, first_ts st, last_ts st)"

text \<open>
  The words of the specification for a line that enters the error signatures: its level
  is ERROR or CRITICAL; it has no parseable timestamp earlier than \<open>start\<close> or later
  than \<open>end\<close>, when those bounds are supplied; and a supplied keyword occurs in its
  message, case-insensitively.
\<close>

definition in_window :: "datetime option \<Rightarrow> datetime option \<Rightarrow> string option \<Rightarrow> bool" where
  "in_window start_date end_date ts =
     (case ts of
        None \<Rightarrow> True
      | Some t \<Rightarrow>
          (case fromisoformat (replace_T t) of
             Inl e \<Rightarrow> False
           | Inr d \<Rightarrow> (case start_date of None \<Rightarrow> True | Some b \<Rightarrow> \<not> d < b)
                      \<and> (case end_date of None \<Rightarrow> True | Some b \<Rightarrow> \<not> b < d)))"

definition has_keyword :: "string option \<Rightarrow> string \<Rightarrow> bool" where
  "has_keyword keyword msg =
     (case keyword of None \<Rightarrow> True | Some k \<Rightarrow> contains (lower msg) (lower k))"

definition selected ::
  "string option \<Rightarrow> datetime option \<Rightarrow> datetime option \<Rightarrow> string \<Rightarrow> bool" where
  "selected keyword start_date end_date line =
     (fst (snd (parse_log_line line)) \<in> set [''ERROR'', ''CRITICAL'']
      \<and> in_window start_date end_date (fst (parse_log_line line))
      \<and> has_keyword keyword (snd (snd (parse_log_line line))))"



text \<open>The signature of a line: up to seven words of its trimmed text, after the first.\<close>

definition signature :: "string \<Rightarrow> string" where
  "signature line = short_msg (strip line)"

text \<open>
  A log of five lines to run the summarizer on: two ERROR lines, a minute apart, with the
  same words after the timestamp, and a last line with neither timestamp nor level.
\<close>

definition fixture :: string where
  "fixture =
     ''2025-10-20T10:00:00 INFO service started'' @ [CHR 0x0A]
     @ ''2025-10-20T10:00:05 ERROR db connection to primary failed after 3 retries'' @ [CHR 0x0A]
     @ ''2025-10-20T10:00:09 WARNING slow query'' @ [CHR 0x0A]
     @ ''2025-10-20T10:01:05 ERROR db connection to primary failed after 3 retries'' @ [CHR 0x0A]
     @ ''plain text'' @ [CHR 0x0A]"

section \<open>A concrete random source and environment\<close>

text \<open>
  A generator to run the model on: its state is a counter, \<open>random()\<close> walks through
  the tenths, \<open>_randbelow(n)\<close> through the residues of \<open>7 * s + 3\<close>, and \<open>expovariate\<close>
  always returns \<open>x\<close> seconds.
\<close>

definition demo_rng :: "real \<Rightarrow> nat rng" where
  "demo_rng x =
     \<lparr>rnd_random = (\<lambda>s. (real (s mod 10) / 10, Suc s)),
      rnd_below = (\<lambda>n s. ((7 * s + 3) mod n, Suc s)),
      rnd_expovariate = (\<lambda>lambd s. (x, Suc s)),
      rnd_seed = (\<lambda>n. nat \<bar>n\<bar>)\<rparr>"

text \<open>
  An environment: the clock reads 2025-11-29 08:00:00, and the \<open>k\<close>-th call of
  \<open>uuid4\<close> reads the bytes \<open>b\<close> plus \<open>k\<close>.
\<close>

definition demo_env :: "nat \<Rightarrow> nat env" where
  "demo_env b =
     \<lparr>env_now = 63900000000000000, env_urandom = (\<lambda>k. b + k), env_seed_state = 5\<rparr>"

section \<open>Theorems\<close>

lemma upt_Suc_shift: "[0..<Suc n] = 0 # map Suc [0..<n]"
  by (simp add: upt_conv_Cons map_Suc_upt del: upt_Suc)

lemma find_map_option: "find P (map f xs) = map_option f (find (\<lambda>x. P (f x)) xs)"
  by (induction xs) simp_all

lemma weighted_walk_find:
  "weighted_walk r acc choices =
     map_option (\<lambda>i. fst (choices ! i))
       (find (\<lambda>i. foldl (+) acc (map snd (take (Suc i) choices)) \<ge> r) [0..<length choices])"
proof (induction choices arbitrary: acc)
  case Nil
  show ?case by simp
next
  case (Cons kw rest)
  obtain k w where kw: "kw = (k, w)" by (cases kw)
  show ?case
  proof (cases "acc + w \<ge> r")
    case True
    then show ?thesis
      by (simp add: kw upt_Suc_shift del: upt_Suc)
  next
    case False
    then show ?thesis
      by (simp add: kw upt_Suc_shift find_map_option comp_def Cons.IH option.map_comp del: upt_Suc)
  qed
qed

text \<open>
  C5. For every non-empty choice table and every draw \<open>r\<close>, \<open>weighted_choice\<close> returns
  the first label whose cumulative mass is at least \<open>r\<close>, and the last label of the
  table when no cumulative mass reaches \<open>r\<close>; it consumes exactly the one draw.
  Neither the sign of the weights nor their sum nor the range of \<open>r\<close> is needed.
\<close>

theorem weighted_choice_first_reaching:
  assumes "choices \<noteq> []"
  shows "weighted_choice R choices s
           = (Inr (first_reaching (fst (rnd_random R s)) choices), snd (rnd_random R s))"
  using assms
  by (simp add: weighted_choice_def weighted_pick_def first_reaching_def cum_mass_def
      weighted_walk_find split: option.splits prod.splits)

theorem weighted_choice_first_reaching_witness:
  "SEVERITY \<noteq> []
   \<and> weighted_choice (demo_rng (1 / 4)) SEVERITY 9 = (Inr ''WARNING'', 10)"
  using weighted_choice_first_reaching [of SEVERITY "demo_rng (1 / 4)" 9]
  by (simp add: first_reaching_def cum_mass_def SEVERITY_def demo_rng_def)

subsection \<open>The draws\<close>

lemma randint_lower: "a \<le> fst (randint R a b s)"
  by (simp add: randint_def case_prod_beta)

lemma randint_upper:
  assumes "rng_ok R" and "a \<le> b"
  shows "fst (randint R a b s) \<le> b"
proof -
  have "0 < nat (b - a + 1)" using assms(2) by simp
  then have "fst (rnd_below R (nat (b - a + 1)) s) < nat (b - a + 1)"
    using assms(1) by (simp add: rng_ok_def)
  then show ?thesis
    by (simp add: randint_def case_prod_beta)
qed

lemma choice_in_set:
  assumes "rng_ok R" and "xs \<noteq> []"
  shows "fst (choice R xs s) \<in> set xs"
proof -
  have "fst (rnd_below R (length xs) s) < length xs"
    using assms by (simp add: rng_ok_def)
  then show ?thesis
    by (simp add: choice_def case_prod_beta)
qed

lemma bisect_right_bounds:
  "lo \<le> hi \<Longrightarrow> lo \<le> bisect_right a x lo hi \<and> bisect_right a x lo hi \<le> hi"
proof (induction a x lo hi rule: bisect_right.induct)
  case (1 a x lo hi)
  show ?case
  proof (cases "lo < hi")
    case False
    with "1.prems" show ?thesis by simp
  next
    case True
    define mid where "mid = (lo + hi) div 2"
    have m: "lo \<le> mid" "mid < hi" using True by (simp_all add: mid_def)
    show ?thesis
    proof (cases "x < a ! mid")
      case lt: True
      from "1.IH"(1)[OF True mid_def lt] m
      have "lo \<le> bisect_right a x lo mid \<and> bisect_right a x lo mid \<le> mid" by simp
      with True lt m show ?thesis
        by (subst bisect_right.simps, subst bisect_right.simps) (simp add: mid_def Let_def)
    next
      case ge: False
      from "1.IH"(2)[OF True mid_def ge] m
      have "mid + 1 \<le> bisect_right a x (mid + 1) hi \<and> bisect_right a x (mid + 1) hi \<le> hi" by simp
      with True ge m show ?thesis
        by (subst bisect_right.simps, subst bisect_right.simps) (simp add: mid_def Let_def)
    qed
  qed
qed

lemma choices_one_in_set:
  assumes "population \<noteq> []"
  shows "fst (choices_one R population weights s) \<in> set population"
proof -
  have "bisect_right cw x 0 (length population - 1) \<le> length population - 1" for cw :: "real list" and x
    using bisect_right_bounds [of 0 "length population - 1" cw x] by simp
  then have "bisect_right cw x 0 (length population - 1) < length population" for cw :: "real list" and x
    using assms by (metis One_nat_def Suc_pred le_imp_less_Suc length_greater_0_conv)
  then show ?thesis
    by (simp add: choices_one_def Let_def case_prod_beta)
qed

lemma weighted_walk_label:
  "weighted_walk r acc choices = Some k \<Longrightarrow> k \<in> fst ` set choices"
proof (induction choices arbitrary: acc)
  case Nil
  then show ?case by simp
next
  case (Cons kw rest)
  then show ?case
    by (cases kw) (force split: if_splits)
qed

lemma weighted_pick_label:
  "weighted_pick r choices = Inr k \<Longrightarrow> k \<in> fst ` set choices"
  by (auto simp: weighted_pick_def split: option.splits if_splits dest: weighted_walk_label)

lemma weighted_pick_nonempty:
  "choices \<noteq> [] \<Longrightarrow> \<exists>k. weighted_pick r choices = Inr k"
  by (simp add: weighted_pick_def split: option.splits)

subsection \<open>Digits and rendered numbers\<close>

lemma below_cases10: "d < 10 \<Longrightarrow> d \<in> {0, 1, 2, 3, 4, 5, 6, 7, 8, 9::nat}"
  by simp arith

lemma below_cases16:
  "d < 16 \<Longrightarrow> d \<in> {0, 1, 2, 3, 4, 5, 6, 7, 8, 9, 10, 11, 12, 13, 14, 15::nat}"
  by simp arith

lemma digit_char_digit: "d < 10 \<Longrightarrow> is_digit (digit_char d)"
  by (drule below_cases10) (auto simp: digit_char_def is_digit_def)

lemma digit_char_value: "d < 10 \<Longrightarrow> of_char (digit_char d) - 48 = d"
  by (drule below_cases10) (auto simp: digit_char_def)

lemma digit_char_zero: "d < 10 \<Longrightarrow> digit_char d = CHR ''0'' \<longleftrightarrow> d = 0"
  by (drule below_cases10) (auto simp: digit_char_def)

lemma digit_char_hex: "d < 16 \<Longrightarrow> digit_char d \<in> set ''0123456789abcdef''"
  by (drule below_cases16) (auto simp: digit_char_def)

lemma str_nat_digits: "list_all is_digit (str_nat n)"
proof (induction n rule: str_nat.induct)
  case (1 n)
  show ?case
  proof (cases "n < 10")
    case True
    then show ?thesis by (subst str_nat.simps) (simp add: digit_char_digit)
  next
    case False
    with 1 show ?thesis by (subst str_nat.simps) (simp add: digit_char_digit)
  qed
qed

lemma str_nat_nonempty: "str_nat n \<noteq> []"
  by (subst str_nat.simps) simp

lemma dec_val_snoc: "dec_val (s @ [c]) = 10 * dec_val s + (of_char c - 48)"
  by (simp add: dec_val_def)

lemma dec_val_str_nat: "dec_val (str_nat n) = n"
proof (induction n rule: str_nat.induct)
  case (1 n)
  show ?case
  proof (cases "n < 10")
    case True
    then show ?thesis
      by (subst str_nat.simps) (simp add: dec_val_def digit_char_value)
  next
    case False
    with 1 show ?thesis
      by (subst str_nat.simps) (simp add: dec_val_snoc digit_char_value)
  qed
qed

lemma str_nat_length: "n < 10 ^ k \<Longrightarrow> 0 < k \<Longrightarrow> length (str_nat n) \<le> k"
proof (induction n arbitrary: k rule: str_nat.induct)
  case (1 n)
  show ?case
  proof (cases "n < 10")
    case True
    with "1.prems" show ?thesis by (subst str_nat.simps) simp
  next
    case False
    then obtain j where k: "k = Suc j" using "1.prems" by (cases k) auto
    have "0 < j" using False "1.prems" k by (cases j) auto
    moreover have "n div 10 < 10 ^ j" using "1.prems" k
      by (simp add: less_mult_imp_div_less mult.commute)
    ultimately have "length (str_nat (n div 10)) \<le> j"
      using "1.IH" False by simp
    with False k show ?thesis by (subst str_nat.simps) simp
  qed
qed

lemma str_nat_hd: "10 \<le> n \<Longrightarrow> hd (str_nat n) \<noteq> CHR ''0''"
proof (induction n rule: str_nat.induct)
  case (1 n)
  show ?case
  proof (cases "n div 10 < 10")
    case True
    have "0 < n div 10" using "1.prems" by simp
    with True "1.prems" show ?thesis
      by (subst str_nat.simps, subst str_nat.simps) (simp add: digit_char_zero)
  next
    case False
    with 1 have "hd (str_nat (n div 10)) \<noteq> CHR ''0''" by simp
    with "1.prems" show ?thesis
      by (subst str_nat.simps) (simp add: str_nat_nonempty)
  qed
qed

lemma str_nat_length_one: "n < 10 \<Longrightarrow> length (str_nat n) = 1"
  by (subst str_nat.simps) simp

lemma octet_ok_str_nat: "n \<le> 255 \<Longrightarrow> octet_ok (str_nat n)"
proof -
  assume n: "n \<le> 255"
  then have "n < 10 ^ 3" by simp
  then have "length (str_nat n) \<le> 3" by (rule str_nat_length) simp
  moreover have "length (str_nat n) = 1 \<or> hd (str_nat n) \<noteq> CHR ''0''"
    using str_nat_length_one [of n] str_nat_hd [of n] by (cases "n < 10") simp_all
  ultimately show ?thesis
    using n by (simp add: octet_ok_def str_nat_nonempty str_nat_digits dec_val_str_nat)
qed

lemma is_digit_plain: "is_digit c \<Longrightarrow> c \<noteq> CHR ''-'' \<and> c \<noteq> CHR ''.'' \<and> c \<notin> set CONTROL \<and> \<not> is_space c"
  by (auto simp: is_digit_def CONTROL_def is_space_def)

lemma digits_clean: "list_all is_digit s \<Longrightarrow> clean s"
  by (induction s) (auto simp: clean_def dest: is_digit_plain)

lemma digits_no_dot: "list_all is_digit s \<Longrightarrow> CHR ''.'' \<notin> set s"
  by (induction s) (auto dest: is_digit_plain)

lemma str_int_nonneg: "0 \<le> i \<Longrightarrow> str_int i = str_nat (nat i)"
  by (simp add: str_int_def)

lemma str_int_clean: "0 \<le> i \<Longrightarrow> clean (str_int i)"
  by (simp add: str_int_nonneg digits_clean str_nat_digits)

lemma clean_append [simp]: "clean (xs @ ys) \<longleftrightarrow> clean xs \<and> clean ys"
  by (simp add: clean_def)

lemma clean_Cons [simp]: "clean (c # cs) \<longleftrightarrow> c \<noteq> CHR ''-'' \<and> c \<notin> set CONTROL \<and> clean cs"
  by (simp add: clean_def)

lemma clean_Nil [simp]: "clean []"
  by (simp add: clean_def)

lemma hex8_length: "length (hex8 n) = 8"
  by (simp add: hex8_def)

lemma hex8_chars: "set (hex8 n) \<subseteq> set ''0123456789abcdef''"
proof -
  have "digit_char (m mod 16) \<in> set ''0123456789abcdef''" for m
    by (rule digit_char_hex) simp
  then show ?thesis unfolding hex8_def by (auto simp del: set_simps upt_Suc)
qed

lemma hex8_clean: "clean (hex8 n)"
  using hex8_chars [of n] by (auto simp: clean_def list_all_iff CONTROL_def)

lemma hex8_last: "\<not> is_space (last (hex8 n))"
proof -
  have "hex8 n \<noteq> []" using hex8_length [of n] by auto
  then have "last (hex8 n) \<in> set ''0123456789abcdef''" using hex8_chars [of n] last_in_set by blast
  then show ?thesis by (auto simp: is_space_def)
qed

subsection \<open>Dotted quads\<close>

lemma split_on_nonempty: "split_on sep s \<noteq> []"
  by (induction s) (auto split: list.splits)

lemma split_on_no_sep: "sep \<notin> set p \<Longrightarrow> split_on sep p = [p]"
  by (induction p) auto

lemma split_on_append:
  "sep \<notin> set p \<Longrightarrow> split_on sep (p @ sep # rest) = p # split_on sep rest"
  by (induction p) auto

lemma parse_ipv4_dotted:
  assumes "0 \<le> a" "a \<le> 255" "0 \<le> b" "b \<le> 255" "0 \<le> c" "c \<le> 255" "0 \<le> d" "d \<le> 255"
  shows "parse_ipv4 (dotted a b c d) = Some (a * 2 ^ 24 + b * 2 ^ 16 + c * 2 ^ 8 + d)"
proof -
  have nd: "CHR ''.'' \<notin> set (str_nat n)" for n
    by (rule digits_no_dot) (rule str_nat_digits)
  have sp: "split_on CHR ''.'' (dotted a b c d)
              = [str_nat (nat a), str_nat (nat b), str_nat (nat c), str_nat (nat d)]"
    using assms
    by (simp add: dotted_def str_int_nonneg split_on_append split_on_no_sep nd)
  have ok: "octet_ok (str_nat (nat a))" "octet_ok (str_nat (nat b))"
           "octet_ok (str_nat (nat c))" "octet_ok (str_nat (nat d))"
    using assms by (simp_all add: octet_ok_str_nat)
  show ?thesis
    using assms by (simp add: parse_ipv4_def sp ok dec_val_str_nat)
qed

lemma dotted_clean:
  "0 \<le> a \<Longrightarrow> 0 \<le> b \<Longrightarrow> 0 \<le> c \<Longrightarrow> 0 \<le> d \<Longrightarrow> clean (dotted a b c d)"
  by (simp add: dotted_def str_int_clean CONTROL_def)

lemma quad_digits:
  fixes n :: int
  assumes "0 \<le> n" "n < 2 ^ 32"
  shows "0 \<le> n div 2 ^ 24" "n div 2 ^ 24 \<le> 255"
    and "n div 2 ^ 24 * 2 ^ 24 + (n div 2 ^ 16) mod 256 * 2 ^ 16
           + (n div 2 ^ 8) mod 256 * 2 ^ 8 + n mod 256 = n"
proof -
  define x where "x = n div 256"
  define y where "y = x div 256"
  define z where "z = y div 256"
  have y: "n div 2 ^ 16 = y"
    using zdiv_zmult2_eq [of 256 n 256] by (simp add: x_def y_def)
  have z: "n div 2 ^ 24 = z"
    using zdiv_zmult2_eq [of 256 n 65536] zdiv_zmult2_eq [of 256 n 256]
          zdiv_zmult2_eq [of 256 x 256]
    by (simp add: x_def y_def z_def)
  have nx: "n = 256 * x + n mod 256" by (simp add: x_def)
  have xy: "x = 256 * y + x mod 256" by (simp add: y_def)
  have yz: "y = 256 * z + y mod 256" by (simp add: z_def)
  have m: "0 \<le> n mod 256" "n mod 256 < 256" "0 \<le> x mod 256" "x mod 256 < 256"
          "0 \<le> y mod 256" "y mod 256 < 256"
    by simp_all
  show "0 \<le> n div 2 ^ 24" using assms(1) by (simp add: pos_imp_zdiv_nonneg_iff)
  show "n div 2 ^ 24 \<le> 255"
    unfolding z using nx xy yz m assms(2) by simp
  show "n div 2 ^ 24 * 2 ^ 24 + (n div 2 ^ 16) mod 256 * 2 ^ 16
           + (n div 2 ^ 8) mod 256 * 2 ^ 8 + n mod 256 = n"
    unfolding z y using nx xy yz by (simp add: x_def [symmetric])
qed

lemma ipv4_str_parse:
  assumes "0 \<le> n" "n < 2 ^ 32"
  shows "parse_ipv4 (ipv4_str n) = Some n"
proof -
  have "parse_ipv4 (ipv4_str n) = Some (n div 2 ^ 24 * 2 ^ 24 + (n div 2 ^ 16) mod 256 * 2 ^ 16
              + (n div 2 ^ 8) mod 256 * 2 ^ 8 + n mod 256)"
    unfolding ipv4_str_def using quad_digits(1,2) [OF assms]
    by (intro parse_ipv4_dotted) simp_all
  with quad_digits(3) [OF assms] show ?thesis by simp
qed

lemma ipv4_str_clean: "0 \<le> n \<Longrightarrow> clean (ipv4_str n)"
  unfolding ipv4_str_def
  by (intro dotted_clean) (simp_all add: pos_imp_zdiv_nonneg_iff)

lemma block_by_prefix:
  fixes m r lo k :: int
  assumes "0 \<le> r" "r < 65536"
  shows "in_block (65536 * m + r) (65536 * lo, 65536 * k) \<longleftrightarrow> lo \<le> m \<and> m \<le> lo + k - 1"
proof
  assume "in_block (65536 * m + r) (65536 * lo, 65536 * k)"
  then have "65536 * lo \<le> 65536 * m + r" "65536 * m + r < 65536 * lo + 65536 * k"
    by (simp_all add: in_block_def)
  with assms show "lo \<le> m \<and> m \<le> lo + k - 1" by linarith
next
  assume "lo \<le> m \<and> m \<le> lo + k - 1"
  with assms show "in_block (65536 * m + r) (65536 * lo, 65536 * k)"
    unfolding in_block_def fst_conv snd_conv by linarith
qed

lemma octet_pair:
  fixes a b A lo hi :: int
  assumes "0 \<le> b" "b \<le> 255" "0 \<le> lo" "hi \<le> 255"
  shows "(256 * A + lo \<le> 256 * a + b \<and> 256 * a + b \<le> 256 * A + hi)
           \<longleftrightarrow> (a = A \<and> lo \<le> b \<and> b \<le> hi)"
proof -
  consider "a \<le> A - 1" | "a = A" | "A + 1 \<le> a" by linarith
  then show ?thesis
  proof cases
    case 1
    with assms have "\<not> 256 * A + lo \<le> 256 * a + b" by linarith
    with 1 show ?thesis by simp
  next
    case 2
    then show ?thesis by simp
  next
    case 3
    with assms have "\<not> 256 * a + b \<le> 256 * A + hi" by linarith
    with 3 show ?thesis by simp
  qed
qed

lemma reserved_octets:
  fixes a b c d :: int
  assumes "0 \<le> b" "b \<le> 255" "0 \<le> c" "c \<le> 255" "0 \<le> d" "d \<le> 255"
  shows "list_ex (in_block (a * 2 ^ 24 + b * 2 ^ 16 + c * 2 ^ 8 + d)) nets
           \<longleftrightarrow> (a = 10 \<or> (a = 192 \<and> b = 168) \<or> (a = 172 \<and> 16 \<le> b \<and> b \<le> 31))"
proof -
  define m where "m = 256 * a + b"
  define r where "r = 256 * c + d"
  have r: "0 \<le> r" "r < 65536" using assms by (simp_all add: r_def)
  have n: "a * 2 ^ 24 + b * 2 ^ 16 + c * 2 ^ 8 + d = 65536 * m + r"
    by (simp add: m_def r_def)
  have nets: "nets = [(65536 * 2560, 65536 * 256), (65536 * 49320, 65536 * 1),
                      (65536 * 44048, 65536 * 16)]"
    by (simp add: nets_def)
  have m1: "(2560 \<le> m \<and> m \<le> 2815) \<longleftrightarrow> a = 10"
    using octet_pair [where b = b and lo = 0 and hi = 255 and A = 10 and a = a] assms(1,2)
    by (simp add: m_def)
  have m2: "(49320 \<le> m \<and> m \<le> 49320) \<longleftrightarrow> a = 192 \<and> b = 168"
    using octet_pair [where b = b and lo = 168 and hi = 168 and A = 192 and a = a] assms(1,2)
    by (simp add: m_def) linarith
  have m3: "(44048 \<le> m \<and> m \<le> 44063) \<longleftrightarrow> a = 172 \<and> 16 \<le> b \<and> b \<le> 31"
    using octet_pair [where b = b and lo = 16 and hi = 31 and A = 172 and a = a] assms(1,2)
    by (simp add: m_def)
  have b1: "in_block (65536 * m + r) (65536 * 2560, 65536 * 256) \<longleftrightarrow> a = 10"
    using block_by_prefix [OF r, where m = m and lo = 2560 and k = 256] m1 by simp
  have b2: "in_block (65536 * m + r) (65536 * 49320, 65536 * 1) \<longleftrightarrow> a = 192 \<and> b = 168"
    using block_by_prefix [OF r, where m = m and lo = 49320 and k = 1] m2 by simp
  have b3: "in_block (65536 * m + r) (65536 * 44048, 65536 * 16)
              \<longleftrightarrow> a = 172 \<and> 16 \<le> b \<and> b \<le> 31"
    using block_by_prefix [OF r, where m = m and lo = 44048 and k = 16] m3 by simp
  show ?thesis
    unfolding n nets
    by (simp only: list_ex_iff list.set bex_simps insert_iff empty_iff b1 b2 b3 simp_thms)
qed

lemma public_ipv4_result:
  assumes "public_ipv4 R s = Some y" and "rng_ok R"
  shows "public_quad (fst y)"
proof -
  have "rng_ok R \<longrightarrow> public_quad (fst y)"
  proof (rule public_ipv4.raw_induct [where P = "\<lambda>R s y. rng_ok R \<longrightarrow> public_quad (fst y)",
        OF _ assms(1)])
    fix loop :: "'a rng \<Rightarrow> 'a \<Rightarrow> (string \<times> 'a) option" and R s y
    assume IH: "\<And>R s y. loop R s = Some y \<Longrightarrow> rng_ok R \<longrightarrow> public_quad (fst y)"
    assume step:
      "(let (a, s1) = randint R 1 254 s; (b, s2) = randint R 0 254 s1;
            (c, s3) = randint R 0 254 s2; (d, s4) = randint R 1 254 s3
        in if \<not> (a = 10 \<or> a = 192 \<and> b = 168 \<or> a = 172 \<and> 16 \<le> b \<and> b \<le> 31)
           then Some (dotted a b c d, s4) else loop R s4) = Some y"
    define a where "a = fst (randint R 1 254 s)"
    define s1 where "s1 = snd (randint R 1 254 s)"
    define b where "b = fst (randint R 0 254 s1)"
    define s2 where "s2 = snd (randint R 0 254 s1)"
    define c where "c = fst (randint R 0 254 s2)"
    define s3 where "s3 = snd (randint R 0 254 s2)"
    define d where "d = fst (randint R 1 254 s3)"
    define s4 where "s4 = snd (randint R 1 254 s3)"
    note defs = a_def s1_def b_def s2_def c_def s3_def d_def s4_def
    have step':
      "(if \<not> (a = 10 \<or> a = 192 \<and> b = 168 \<or> a = 172 \<and> 16 \<le> b \<and> b \<le> 31)
        then Some (dotted a b c d, s4) else loop R s4) = Some y"
      using step unfolding defs by (simp add: case_prod_beta Let_def)
    show "rng_ok R \<longrightarrow> public_quad (fst y)"
    proof
      assume ok: "rng_ok R"
      have rng: "1 \<le> a" "a \<le> 254" "0 \<le> b" "b \<le> 254" "0 \<le> c" "c \<le> 254"
                "1 \<le> d" "d \<le> 254"
        using randint_lower randint_upper [OF ok] by (simp_all add: defs)
      show "public_quad (fst y)"
      proof (cases "a = 10 \<or> (a = 192 \<and> b = 168) \<or> (a = 172 \<and> 16 \<le> b \<and> b \<le> 31)")
        case True
        with step' have "loop R s4 = Some y"
          by simp
        then show ?thesis using IH ok by blast
      next
        case False
        with step' have "fst y = dotted a b c d"
          by auto
        with False rng show ?thesis unfolding public_quad_def by blast
      qed
    qed
  qed
  with assms(2) show ?thesis by simp
qed


lemma public_quad_address: "public_quad addr \<Longrightarrow> public_address addr"
proof -
  assume "public_quad addr"
  then obtain a b c d where q: "addr = dotted a b c d" "1 \<le> a" "a \<le> 254" "0 \<le> b" "b \<le> 254"
      "0 \<le> c" "c \<le> 254" "1 \<le> d" "d \<le> 254"
      "\<not> (a = 10 \<or> (a = 192 \<and> b = 168) \<or> (a = 172 \<and> 16 \<le> b \<and> b \<le> 31))"
    unfolding public_quad_def by blast
  have "parse_ipv4 addr = Some (a * 2 ^ 24 + b * 2 ^ 16 + c * 2 ^ 8 + d)"
    unfolding q(1) using q by (intro parse_ipv4_dotted) simp_all
  moreover have "\<not> list_ex (in_block (a * 2 ^ 24 + b * 2 ^ 16 + c * 2 ^ 8 + d)) nets"
    using q by (subst reserved_octets) simp_all
  ultimately show ?thesis by (simp add: public_address_def)
qed

lemma public_quad_clean: "public_quad addr \<Longrightarrow> clean addr"
  unfolding public_quad_def by (auto intro!: dotted_clean)

lemma private_ipv4_host:
  assumes "rng_ok R"
  shows "\<exists>net n. net \<in> set nets \<and> host_of_block n net \<and> fst (private_ipv4 R s) = ipv4_str n"
proof -
  define net where "net = fst (choice R nets s)"
  define s1 where "s1 = snd (choice R nets s)"
  define k where "k = fst (randint R 1 (snd net - 2) s1)"
  have net: "net \<in> set nets"
    unfolding net_def using assms by (intro choice_in_set) (simp_all add: nets_def)
  then have "1 \<le> snd net - 2" by (auto simp: nets_def)
  then have k: "1 \<le> k" "k \<le> snd net - 2"
    using randint_lower [of 1 R "snd net - 2" s1] randint_upper [OF assms, of 1 "snd net - 2" s1]
    by (simp_all add: k_def)
  have "fst (private_ipv4 R s) = ipv4_str (fst net + k)"
    by (simp add: private_ipv4_def case_prod_beta net_def s1_def k_def)
  moreover have "host_of_block (fst net + k) net"
    using k by (simp add: host_of_block_def)
  ultimately show ?thesis using net by blast
qed

lemma host_in_range:
  assumes "net \<in> set nets" and "host_of_block n net"
  shows "0 \<le> n" and "n < 2 ^ 32"
  using assms by (auto simp: nets_def host_of_block_def)

lemma private_ipv4_address:
  assumes "rng_ok R"
  shows "private_host_address (fst (private_ipv4 R s))" and "clean (fst (private_ipv4 R s))"
proof -
  obtain net n where h: "net \<in> set nets" "host_of_block n net"
      "fst (private_ipv4 R s) = ipv4_str n"
    using private_ipv4_host [OF assms] by blast
  have r: "0 \<le> n" "n < 2 ^ 32" using host_in_range [OF h(1,2)] by simp_all
  have "list_ex (host_of_block n) nets" using h(1,2) by (auto simp: list_ex_iff)
  then show "private_host_address (fst (private_ipv4 R s))"
    by (simp add: private_host_address_def h(3) ipv4_str_parse [OF r])
  show "clean (fst (private_ipv4 R s))"
    by (simp add: h(3) ipv4_str_clean r(1))
qed

lemma random_ipv4_clean:
  assumes "rng_ok R" and "random_ipv4 R private_bias s = Some (addr, s')"
  shows "clean addr"
proof (cases "fst (rnd_random R s) < private_bias")
  case True
  with assms(2) have "addr = fst (private_ipv4 R (snd (rnd_random R s)))"
    by (auto simp: random_ipv4_def case_prod_beta)
  then show ?thesis using private_ipv4_address(2) [OF assms(1)] by simp
next
  case False
  with assms(2) have "public_ipv4 R (snd (rnd_random R s)) = Some (addr, s')"
    by (simp add: random_ipv4_def case_prod_beta)
  from public_ipv4_result [OF this assms(1)] show ?thesis
    by (simp add: public_quad_clean)
qed

text \<open>
  C3. Every address that \<open>random_ipv4\<close> returns when the private-bias branch is not
  taken is a syntactically valid dotted quad outside the three reserved blocks, and every
  address it returns when the branch is taken lies strictly between the network and the
  broadcast address of one of the blocks; with a bias of at most 0 the branch is never
  taken, with a bias of at least 1 it always is.
\<close>

theorem random_ipv4_containment:
  assumes "rng_ok R" and "random_ipv4 R private_bias s = Some (addr, s')"
  shows "(if fst (rnd_random R s) < private_bias then private_host_address addr
          else public_address addr)
         \<and> (if private_bias \<le> 0 then public_address addr
            else if 1 \<le> private_bias then private_host_address addr else True)"
proof -
  have main: "if fst (rnd_random R s) < private_bias then private_host_address addr
              else public_address addr"
  proof (cases "fst (rnd_random R s) < private_bias")
    case True
    with assms(2) have "addr = fst (private_ipv4 R (snd (rnd_random R s)))"
      by (auto simp: random_ipv4_def case_prod_beta)
    with True show ?thesis using private_ipv4_address(1) [OF assms(1)] by simp
  next
    case False
    with assms(2) have "public_ipv4 R (snd (rnd_random R s)) = Some (addr, s')"
      by (simp add: random_ipv4_def case_prod_beta)
    from public_ipv4_result [OF this assms(1)] False show ?thesis
      by (simp add: public_quad_address)
  qed
  have r: "0 \<le> fst (rnd_random R s)" "fst (rnd_random R s) < 1"
    using assms(1) by (simp_all add: rng_ok_def)
  show ?thesis
  proof (intro conjI)
    show "if fst (rnd_random R s) < private_bias then private_host_address addr
          else public_address addr" by (rule main)
    show "if private_bias \<le> 0 then public_address addr
          else if 1 \<le> private_bias then private_host_address addr else True"
      using main r by (auto split: if_splits)
  qed
qed

subsection \<open>The rejection loop ends\<close>

lemma public_ipv4_pass:
  "public_ipv4 R s =
     (if \<not> rejected (fst (draw_octets R s))
      then Some (case fst (draw_octets R s) of (a, b, c, d) \<Rightarrow> dotted a b c d,
                 snd (draw_octets R s))
      else public_ipv4 R (snd (draw_octets R s)))"
  by (subst public_ipv4.simps) (simp add: draw_octets_def rejected_def case_prod_beta Let_def)

lemma public_ipv4_after_skips:
  "\<not> rejected (fst (draw_octets R (skip_draws R k s))) \<Longrightarrow> public_ipv4 R s \<noteq> None"
proof (induction k arbitrary: s)
  case 0
  then show ?case by (subst public_ipv4_pass) simp
next
  case (Suc k)
  show ?case
  proof (cases "rejected (fst (draw_octets R s))")
    case False
    then show ?thesis by (subst public_ipv4_pass) simp
  next
    case True
    from Suc.IH [of "snd (draw_octets R s)"] Suc.prems
    have "public_ipv4 R (snd (draw_octets R s)) \<noteq> None" by simp
    with True show ?thesis by (subst public_ipv4_pass) simp
  qed
qed

lemma eventually_public_terminates:
  assumes "eventually_public R"
  shows "public_terminates R"
  unfolding public_terminates_def
proof
  fix s
  from assms obtain k where "\<not> rejected (fst (draw_octets R (skip_draws R k s)))"
    unfolding eventually_public_def by blast
  then show "public_ipv4 R s \<noteq> None" by (rule public_ipv4_after_skips)
qed

text \<open>The condition on the source is exactly that the loop ends from every state.\<close>

lemma public_ipv4_Some_accepts:
  assumes "public_ipv4 R s = Some y"
  shows "\<exists>k. \<not> rejected (fst (draw_octets R (skip_draws R k s)))"
proof (rule public_ipv4.raw_induct
    [where P = "\<lambda>R s y. \<exists>k. \<not> rejected (fst (draw_octets R (skip_draws R k s)))",
      OF _ assms])
  fix loop :: "'a rng \<Rightarrow> 'a \<Rightarrow> (string \<times> 'a) option" and R s y
  assume IH: "\<And>R s y. loop R s = Some y
                \<Longrightarrow> \<exists>k. \<not> rejected (fst (draw_octets R (skip_draws R k s)))"
  assume step:
    "(let (a, s1) = randint R 1 254 s; (b, s2) = randint R 0 254 s1;
          (c, s3) = randint R 0 254 s2; (d, s4) = randint R 1 254 s3
      in if \<not> (a = 10 \<or> a = 192 \<and> b = 168 \<or> a = 172 \<and> 16 \<le> b \<and> b \<le> 31)
         then Some (dotted a b c d, s4) else loop R s4) = Some y"
  show "\<exists>k. \<not> rejected (fst (draw_octets R (skip_draws R k s)))"
  proof (cases "rejected (fst (draw_octets R s))")
    case False
    then have "\<not> rejected (fst (draw_octets R (skip_draws R 0 s)))" by simp
    then show ?thesis by (rule exI)
  next
    case True
    with step have "loop R (snd (draw_octets R s)) = Some y"
      by (auto simp: draw_octets_def rejected_def case_prod_beta Let_def split: if_splits)
    from IH [OF this] obtain k where
      "\<not> rejected (fst (draw_octets R (skip_draws R k (snd (draw_octets R s)))))"
      by blast
    then have "\<not> rejected (fst (draw_octets R (skip_draws R (Suc k) s)))" by simp
    then show ?thesis by (rule exI)
  qed
qed

lemma public_terminates_eventually: "public_terminates R = eventually_public R"
proof
  assume t: "public_terminates R"
  show "eventually_public R"
    unfolding eventually_public_def
  proof
    fix s
    from t obtain y where "public_ipv4 R s = Some y"
      unfolding public_terminates_def by blast
    then show "\<exists>k. \<not> rejected (fst (draw_octets R (skip_draws R k s)))"
      by (rule public_ipv4_Some_accepts)
  qed
next
  assume "eventually_public R"
  then show "public_terminates R" by (rule eventually_public_terminates)
qed

lemma first_octet_accepts: "fst q \<notin> {10, 172, 192} \<Longrightarrow> \<not> rejected q"
  by (auto simp: rejected_def split: prod.splits)

subsection \<open>The concrete generator\<close>

lemma demo_rng_simps [simp]:
  "rnd_random (demo_rng x) s = (real (s mod 10) / 10, Suc s)"
  "rnd_below (demo_rng x) n s = ((7 * s + 3) mod n, Suc s)"
  "rnd_expovariate (demo_rng x) lambd s = (x, Suc s)"
  "rnd_seed (demo_rng x) i = nat \<bar>i\<bar>"
  by (simp_all add: demo_rng_def)

lemma rng_ok_demo: "0 \<le> x \<Longrightarrow> rng_ok (demo_rng x)"
  by (simp add: rng_ok_def)

lemma randint_demo [simp]:
  "randint (demo_rng x) a b s = (a + int ((7 * s + 3) mod nat (b - a + 1)), Suc s)"
  by (simp add: randint_def)

lemma choice_demo [simp]:
  "choice (demo_rng x) xs s = (xs ! ((7 * s + 3) mod length xs), Suc s)"
  by (simp add: choice_def)

lemma draw_octets_demo:
  "fst (fst (draw_octets (demo_rng x) s)) = 1 + int ((7 * s + 3) mod 254)"
  "snd (draw_octets (demo_rng x) s) = s + 4"
  by (simp_all add: draw_octets_def)

lemma eventually_public_demo: "eventually_public (demo_rng x)"
  unfolding eventually_public_def
proof
  fix s :: nat
  define k where "k = (7 * s + 3) mod 254"
  have "7 * (s + 4) + 3 = (7 * s + 3) + 28" by simp
  then have k': "(7 * (s + 4) + 3) mod 254 = (k + 28) mod 254"
    unfolding k_def by (simp only: mod_add_left_eq)
  show "\<exists>n. \<not> rejected (fst (draw_octets (demo_rng x) (skip_draws (demo_rng x) n s)))"
  proof (cases "k = 9 \<or> k = 171 \<or> k = 191")
    case False
    then have "fst (fst (draw_octets (demo_rng x) s)) \<notin> {10, 172, 192}"
      unfolding draw_octets_demo k_def [symmetric] by auto
    then have "\<not> rejected (fst (draw_octets (demo_rng x) (skip_draws (demo_rng x) 0 s)))"
      by (simp add: first_octet_accepts)
    then show ?thesis by (rule exI)
  next
    case True
    then have "(k + 28) mod 254 = 37 \<or> (k + 28) mod 254 = 199 \<or> (k + 28) mod 254 = 219"
      by auto
    then have "fst (fst (draw_octets (demo_rng x) (s + 4))) \<notin> {10, 172, 192}"
      unfolding draw_octets_demo k' by auto
    then have r: "\<not> rejected (fst (draw_octets (demo_rng x) (s + 4)))"
      by (rule first_octet_accepts)
    have sk: "skip_draws (demo_rng x) (Suc 0) s = s + 4"
      by (simp add: draw_octets_demo)
    have "\<not> rejected (fst (draw_octets (demo_rng x) (skip_draws (demo_rng x) (Suc 0) s)))"
      unfolding sk by (rule r)
    then show ?thesis by (rule exI)
  qed
qed

lemma public_terminates_demo: "public_terminates (demo_rng x)"
  by (rule eventually_public_terminates [OF eventually_public_demo])

lemma random_ipv4_private_demo:
  "random_ipv4 (demo_rng (1 / 4)) (3 / 10) 1 = Some (''172.16.0.25'', 4)"
  by (simp add: random_ipv4_def private_ipv4_def nets_def ipv4_str_def dotted_def str_int_def
      str_nat.simps digit_char_def)

lemma random_ipv4_public_demo:
  "random_ipv4 (demo_rng (1 / 4)) (3 / 10) 8 = Some (''67.73.80.88'', 13)"
  by (subst random_ipv4_def, simp, subst public_ipv4.simps)
     (simp add: dotted_def str_int_def str_nat.simps digit_char_def)

theorem random_ipv4_containment_witness:
  "rng_ok (demo_rng (1 / 4))
   \<and> random_ipv4 (demo_rng (1 / 4)) (3 / 10) 1 = Some (''172.16.0.25'', 4)
   \<and> fst (rnd_random (demo_rng (1 / 4)) 1) < 3 / 10
   \<and> private_host_address ''172.16.0.25''
   \<and> random_ipv4 (demo_rng (1 / 4)) (3 / 10) 8 = Some (''67.73.80.88'', 13)
   \<and> \<not> fst (rnd_random (demo_rng (1 / 4)) 8) < 3 / 10
   \<and> public_address ''67.73.80.88''"
  using random_ipv4_containment [OF rng_ok_demo random_ipv4_private_demo]
    random_ipv4_containment [OF rng_ok_demo random_ipv4_public_demo]
    rng_ok_demo [of "1 / 4"] random_ipv4_private_demo random_ipv4_public_demo
  by simp

subsection \<open>The calendar and the syslog timestamp\<close>

lemma month_day_core:
  fixes n :: nat and leapyear :: bool
  assumes "n < 365"
  defines "month \<equiv> (n + 50) div 32"
  defines "preceding \<equiv> DAYS_BEFORE_MONTH ! month + (if 2 < month \<and> leapyear then 1 else 0)"
  defines "preceding' \<equiv>
     preceding - (DAYS_IN_MONTH ! (month - 1) + (if month - 1 = 2 \<and> leapyear then 1 else 0))"
  shows "if n < preceding
         then 1 \<le> month - 1 \<and> month - 1 \<le> 12 \<and> n - preceding' + 1 \<le> 31
         else 1 \<le> month \<and> month \<le> 12 \<and> n - preceding + 1 \<le> 31"
proof -
  have b: "32 * month \<le> n + 50" "n + 50 < 32 * month + 32"
    unfolding month_def by (simp_all add: div_times_less_eq_dividend dividend_less_times_div)
  with assms(1) have "1 \<le> month \<and> month \<le> 12" by simp
  then have "month \<in> {1, 2, 3, 4, 5, 6, 7, 8, 9, 10, 11, 12}" by simp arith
  then consider "month = 1" | "month = 2" | "month = 3" | "month = 4" | "month = 5"
    | "month = 6" | "month = 7" | "month = 8" | "month = 9" | "month = 10" | "month = 11"
    | "month = 12"
    by blast
  then show ?thesis
    using b assms(1) unfolding preceding'_def preceding_def
    by cases (auto simp add: DAYS_BEFORE_MONTH_def DAYS_IN_MONTH_def)
qed

lemma ord2ymd_range:
  "1 \<le> fst (snd (ord2ymd ordinal)) \<and> fst (snd (ord2ymd ordinal)) \<le> 12
   \<and> snd (snd (ord2ymd ordinal)) \<le> 31"
proof -
  define n0 where "n0 = ordinal - 1"
  define n400 where "n400 = n0 div 146097"
  define na where "na = n0 mod 146097"
  define n100 where "n100 = na div 36524"
  define nb where "nb = na mod 36524"
  define n4 where "n4 = nb div 1461"
  define nc where "nc = nb mod 1461"
  define n1 where "n1 = nc div 365"
  define n where "n = nc mod 365"
  define year where "year = n400 * 400 + 1 + n100 * 100 + n4 * 4 + n1"
  define leapyear where "leapyear = (n1 = 3 \<and> (n4 \<noteq> 24 \<or> n100 = 3))"
  define month where "month = (n + 50) div 32"
  define preceding where
    "preceding = DAYS_BEFORE_MONTH ! month + (if 2 < month \<and> leapyear then 1 else 0)"
  define preceding' where
    "preceding' = preceding
       - (DAYS_IN_MONTH ! (month - 1) + (if month - 1 = 2 \<and> leapyear then 1 else 0))"
  have ord: "ord2ymd ordinal =
      (if n1 = 4 \<or> n100 = 4 then (year - 1, 12, 31)
       else if n < preceding then (year, month - 1, n - preceding' + 1)
       else (year, month, n - preceding + 1))"
    unfolding ord2ymd_def Let_def
    unfolding n0_def [symmetric]
    unfolding n400_def [symmetric] na_def [symmetric]
    unfolding n100_def [symmetric] nb_def [symmetric]
    unfolding n4_def [symmetric] nc_def [symmetric]
    unfolding n1_def [symmetric] n_def [symmetric]
    unfolding year_def [symmetric] leapyear_def [symmetric]
    unfolding month_def [symmetric]
    unfolding preceding_def [symmetric]
    unfolding preceding'_def [symmetric]
    by (rule refl)
  have "n < 365" by (simp add: n_def)
  from month_day_core [OF this, of leapyear]
  have core: "if n < preceding
         then 1 \<le> month - 1 \<and> month - 1 \<le> 12 \<and> n - preceding' + 1 \<le> 31
         else 1 \<le> month \<and> month \<le> 12 \<and> n - preceding + 1 \<le> 31"
    unfolding month_def [symmetric] preceding_def [symmetric] preceding'_def [symmetric] .
  show ?thesis
  proof (cases "n1 = 4 \<or> n100 = 4")
    case True
    then show ?thesis unfolding ord by simp
  next
    case False
    show ?thesis
    proof (cases "n < preceding")
      case True
      with False core show ?thesis unfolding ord by simp
    next
      case ge: False
      with False core show ?thesis unfolding ord by simp
    qed
  qed
qed

lemma dt_ymd_range:
  assumes "dt_ymd t = (year, month, day)"
  shows "1 \<le> month" "month \<le> 12" "day \<le> 31"
  using ord2ymd_range [of "nat (t div 86400000000) + 1"] assms
  by (simp_all add: dt_ymd_def)

lemma month_abbr_in: "1 \<le> m \<Longrightarrow> m \<le> 12 \<Longrightarrow> MONTH_ABBR ! m \<in> set (tl MONTH_ABBR)"
proof -
  assume "1 \<le> m" "m \<le> 12"
  then have "m \<in> {1, 2, 3, 4, 5, 6, 7, 8, 9, 10, 11, 12}" by simp arith
  then show ?thesis by (auto simp: MONTH_ABBR_def)
qed

lemma pad2_two:
  assumes "n < 100"
  obtains d1 d2 where "pad2 n = [d1, d2]" "is_digit d1" "is_digit d2"
proof (cases "n < 10")
  case True
  then have "pad2 n = [CHR ''0'', digit_char n]"
    by (simp add: pad2_def) (subst str_nat.simps, simp)
  moreover have "is_digit (CHR ''0'')" by (simp add: is_digit_def)
  ultimately show ?thesis using that digit_char_digit [OF True] by blast
next
  case False
  then have d: "n div 10 < 10" "n mod 10 < 10" using assms by simp_all
  from False have "pad2 n = [digit_char (n div 10), digit_char (n mod 10)]"
    using d by (simp add: pad2_def) (subst str_nat.simps, simp, subst str_nat.simps, simp)
  then show ?thesis using that digit_char_digit d by blast
qed

lemma second_of_day_less: "dt_second_of_day t < 86400"
  by (simp add: dt_second_of_day_def nat_less_iff)

lemma format_syslog_ts_form:
  "syslog_form (format_syslog_ts ts) \<and> clean (format_syslog_ts ts)
   \<and> length (format_syslog_ts ts) = 15"
proof -
  obtain year month day where ymd: "dt_ymd ts = (year, month, day)"
    by (cases "dt_ymd ts") auto
  define sec where "sec = dt_second_of_day ts"
  have sec: "sec < 86400" unfolding sec_def by (rule second_of_day_less)
  from dt_ymd_range [OF ymd] have m: "MONTH_ABBR ! month \<in> set (tl MONTH_ABBR)"
    and day: "day < 100" by (simp_all add: month_abbr_in)
  have h: "sec div 3600 < 100" using sec by (simp add: div_less_iff_less_mult)
  have mi: "sec div 60 mod 60 < 100" by (rule less_trans [of _ 60]) simp_all
  have se: "sec mod 60 < 100" by (rule less_trans [of _ 60]) simp_all
  obtain a1 a2 where a: "pad2 day = [a1, a2]" "is_digit a1" "is_digit a2"
    using pad2_two [OF day] by blast
  obtain b1 b2 where b: "pad2 (sec div 3600) = [b1, b2]" "is_digit b1" "is_digit b2"
    using pad2_two [OF h] by blast
  obtain c1 c2 where c: "pad2 (sec div 60 mod 60) = [c1, c2]" "is_digit c1" "is_digit c2"
    using pad2_two [OF mi] by blast
  obtain e1 e2 where e: "pad2 (sec mod 60) = [e1, e2]" "is_digit e1" "is_digit e2"
    using pad2_two [OF se] by blast
  have f: "format_syslog_ts ts
             = MONTH_ABBR ! month @ [CHR '' '', a1, a2, CHR '' '', b1, b2, CHR '':'', c1, c2,
                                       CHR '':'', e1, e2]"
    by (simp add: format_syslog_ts_def ymd sec_def [symmetric] a b c e)
  have p: "c \<noteq> CHR ''-'' \<and> c \<notin> set CONTROL" if "is_digit c" for c
    using is_digit_plain [OF that] by simp
  from m have "syslog_form (format_syslog_ts ts)"
    unfolding f syslog_form_def SYSLOG_FORM_def
    using a(2,3) b(2,3) c(2,3) e(2,3) by (auto simp: MONTH_ABBR_def)
  moreover from m have "clean (MONTH_ABBR ! month) \<and> length (MONTH_ABBR ! month) = 3"
    by (auto simp: MONTH_ABBR_def CONTROL_def)
  then have "clean (format_syslog_ts ts) \<and> length (format_syslog_ts ts) = 15"
    unfolding f using a(2,3) b(2,3) c(2,3) e(2,3) by (simp add: p) (simp add: CONTROL_def)
  ultimately show ?thesis by simp
qed

subsection \<open>The fields of a record\<close>

lemma weighted_choice_severity:
  "\<exists>sev. fst (weighted_choice R SEVERITY s) = Inr sev \<and> sev \<in> set (map fst SEVERITY)"
proof -
  have "SEVERITY \<noteq> []" by (simp add: SEVERITY_def)
  then obtain k where k: "weighted_pick (fst (rnd_random R s)) SEVERITY = Inr k"
    using weighted_pick_nonempty by blast
  then have "k \<in> fst ` set SEVERITY" by (rule weighted_pick_label)
  with k show ?thesis by (simp add: weighted_choice_def case_prod_beta)
qed

lemma draw_fields_rest:
  "draw_fields R U (s0, u) =
     (case fst (weighted_choice R SEVERITY s0) of
        Inl e \<Rightarrow> Some (Inl e)
      | Inr sev \<Rightarrow>
          Option.bind (random_ipv4 R (6 / 10)
              (snd (choice R PROTOCOLS (snd (weighted_choice R SEVERITY s0)))))
            (\<lambda>(s_ip, s3). Option.bind (random_ipv4 R (3 / 10) s3)
               (\<lambda>(d_ip, s4). Some (Inr (draw_rest R U sev
                   (fst (choice R PROTOCOLS (snd (weighted_choice R SEVERITY s0))))
                   s_ip d_ip s4 u)))))"
  unfolding draw_fields_def draw_rest_def
  by (simp add: Let_def case_prod_beta split: sum.splits)

lemma draw_rest_props:
  assumes "rng_ok R" "sev \<in> set (map fst SEVERITY)" "proto \<in> set PROTOCOLS"
    "clean s_ip" "clean d_ip"
  shows "fields_ok (fst (draw_rest R U sev proto s_ip d_ip s4 u))"
    and "f_uid (fst (draw_rest R U sev proto s_ip d_ip s4 u)) = hex8 (U u)"
    and "snd (snd (draw_rest R U sev proto s_ip d_ip s4 u)) = Suc u"
    and "draw_rest R U' sev proto s_ip d_ip s4 u
           = ((fst (draw_rest R U sev proto s_ip d_ip s4 u))\<lparr>f_uid := hex8 (U' u)\<rparr>,
              snd (draw_rest R U sev proto s_ip d_ip s4 u))"
proof -
  define p5 where "p5 = (if proto \<in> set [''TCP'', ''UDP'']
                         then randint R 1 65535 s4 else (0, s4))"
  define p6 where "p6 = (if proto \<in> set [''TCP'', ''UDP'']
                         then choice R DPORTS (snd p5) else (0, snd p5))"
  define p7 where "p7 = choice R INTERFACES (snd p6)"
  define p8 where "p8 = choice R INTERFACES (snd p7)"
  define p9 where "p9 = choices_one R ACTIONS [6 / 10, 3 / 10, 1 / 10] (snd p8)"
  define p10 where "p10 = randint R 0 15000 (snd p9)"
  define p11 where "p11 = (if 0 < fst p10
                           then (max 1 (fst p10 div fst (randint R 60 120 (snd p10))),
                                 snd (randint R 60 120 (snd p10)))
                           else randint R 0 4 (snd p10))"
  define p12 where "p12 = randint R 100 3999 (snd p11)"
  define p13 where "p13 = (if sev \<in> set [''INFO'', ''NOTICE'']
                           then choice R REASONS_INFO (snd p12)
                           else if sev = ''WARNING'' then choice R REASONS_WARN (snd p12)
                           else choice R REASONS_ERROR (snd p12))"
  have eq: "draw_rest R V sev proto s_ip d_ip s4 u =
      (\<lparr>f_sev = sev, f_proto = proto, f_s_ip = s_ip, f_d_ip = d_ip, f_s_pt = fst p5,
        f_d_pt = fst p6, f_in_if = fst p7, f_out_if = fst p8, f_action = fst p9,
        f_bytes_cnt = fst p10, f_pkts = fst p11, f_rule = fst p12, f_uid = hex8 (V u),
        f_reason = fst p13\<rparr>, snd p13, Suc u)" for V
    unfolding draw_rest_def Let_def case_prod_beta
    unfolding p5_def [symmetric]
    unfolding p6_def [symmetric]
    unfolding p7_def [symmetric]
    unfolding p8_def [symmetric]
    unfolding p9_def [symmetric]
    unfolding p10_def [symmetric]
    unfolding p11_def [symmetric]
    unfolding p12_def [symmetric]
    unfolding p13_def [symmetric]
    by (rule refl)
  note ch = choice_in_set [OF assms(1)]
  have f5: "0 \<le> fst p5"
    using randint_lower [of 1 R 65535 s4] by (simp add: p5_def)
  have "0 \<le> fst (choice R DPORTS t)" for t
    using ch [of DPORTS t] by (auto simp: DPORTS_def)
  then have f6: "0 \<le> fst p6" by (simp add: p6_def)
  have f7: "fst p7 \<in> set INTERFACES" unfolding p7_def by (rule ch) (simp add: INTERFACES_def)
  have f8: "fst p8 \<in> set INTERFACES" unfolding p8_def by (rule ch) (simp add: INTERFACES_def)
  have f9: "fst p9 \<in> set ACTIONS"
    unfolding p9_def by (rule choices_one_in_set) (simp add: ACTIONS_def)
  have f10: "0 \<le> fst p10" unfolding p10_def by (rule randint_lower)
  have f11: "0 \<le> fst p11"
    using randint_lower [of 0 R 4 "snd p10"] by (simp add: p11_def max_def)
  have f12: "0 \<le> fst p12"
    using randint_lower [of 100 R 3999 "snd p11"] by (simp add: p12_def)
  have "fst (choice R REASONS_INFO t) \<in> set REASONS_INFO"
       "fst (choice R REASONS_WARN t) \<in> set REASONS_WARN"
       "fst (choice R REASONS_ERROR t) \<in> set REASONS_ERROR" for t
    by (rule ch, simp add: REASONS_INFO_def REASONS_WARN_def REASONS_ERROR_def)+
  then have f13: "fst p13 \<in> set (REASONS_INFO @ REASONS_WARN @ REASONS_ERROR)"
    by (simp add: p13_def)
  show "fields_ok (fst (draw_rest R U sev proto s_ip d_ip s4 u))"
    unfolding eq fields_ok_def using assms(2-5) f5 f6 f7 f8 f9 f10 f11 f12 f13 by simp
  show "f_uid (fst (draw_rest R U sev proto s_ip d_ip s4 u)) = hex8 (U u)"
    unfolding eq by simp
  show "snd (snd (draw_rest R U sev proto s_ip d_ip s4 u)) = Suc u"
    unfolding eq by simp
  show "draw_rest R U' sev proto s_ip d_ip s4 u
           = ((fst (draw_rest R U sev proto s_ip d_ip s4 u))\<lparr>f_uid := hex8 (U' u)\<rparr>,
              snd (draw_rest R U sev proto s_ip d_ip s4 u))"
    unfolding eq by simp
qed

lemma random_ipv4_total:
  assumes "public_terminates R"
  shows "\<exists>y. random_ipv4 R private_bias s = Some y"
  using assms by (auto simp: random_ipv4_def public_terminates_def case_prod_beta)

lemma draw_fields_total:
  assumes "public_terminates R"
  shows "\<exists>f st'. draw_fields R U (s, u) = Some (Inr (f, st'))"
proof -
  obtain sev where sev: "fst (weighted_choice R SEVERITY s) = Inr sev"
    using weighted_choice_severity [of R s] by blast
  define s2 where "s2 = snd (choice R PROTOCOLS (snd (weighted_choice R SEVERITY s)))"
  obtain s_ip s3 where a: "random_ipv4 R (6 / 10) s2 = Some (s_ip, s3)"
    using random_ipv4_total [OF assms] by fastforce
  obtain d_ip s4 where b: "random_ipv4 R (3 / 10) s3 = Some (d_ip, s4)"
    using random_ipv4_total [OF assms] by fastforce
  have "draw_fields R U (s, u)
          = Some (Inr (draw_rest R U sev
                (fst (choice R PROTOCOLS (snd (weighted_choice R SEVERITY s)))) s_ip d_ip s4 u))"
    unfolding draw_fields_rest s2_def [symmetric]
    by (simp only: sev a b Option.bind_lunit sum.case prod.case)
  then show ?thesis by (metis surj_pair)
qed

lemma draw_fields_no_raise: "draw_fields R U (s, u) \<noteq> Some (Inl e)"
proof -
  obtain sev where sev: "fst (weighted_choice R SEVERITY s) = Inr sev"
    using weighted_choice_severity [of R s] by blast
  show ?thesis
    unfolding draw_fields_rest
    by (auto simp: sev bind_eq_Some_conv case_prod_beta)
qed

lemma draw_fields_cases:
  assumes "draw_fields R U (s, u) = Some (Inr (f, st'))"
  obtains sev proto s2 s_ip s3 d_ip s4 where
    "fst (weighted_choice R SEVERITY s) = Inr sev" "sev \<in> set (map fst SEVERITY)"
    "proto = fst (choice R PROTOCOLS (snd (weighted_choice R SEVERITY s)))"
    "s2 = snd (choice R PROTOCOLS (snd (weighted_choice R SEVERITY s)))"
    "random_ipv4 R (6 / 10) s2 = Some (s_ip, s3)"
    "random_ipv4 R (3 / 10) s3 = Some (d_ip, s4)"
    "(f, st') = draw_rest R U sev proto s_ip d_ip s4 u"
proof -
  obtain sev where sev: "fst (weighted_choice R SEVERITY s) = Inr sev"
      "sev \<in> set (map fst SEVERITY)"
    using weighted_choice_severity [of R s] by blast
  define proto where "proto = fst (choice R PROTOCOLS (snd (weighted_choice R SEVERITY s)))"
  define s2 where "s2 = snd (choice R PROTOCOLS (snd (weighted_choice R SEVERITY s)))"
  from assms obtain y where y: "random_ipv4 R (6 / 10) s2 = Some y"
    and r1: "Option.bind (random_ipv4 R (3 / 10) (snd y))
               (\<lambda>(d_ip, s4). Some (Inr (draw_rest R U sev proto (fst y) d_ip s4 u)))
             = Some (Inr (f, st'))"
    unfolding draw_fields_rest s2_def [symmetric] proto_def [symmetric]
    by (auto simp: sev bind_eq_Some_conv case_prod_beta)
  from r1 obtain z where z: "random_ipv4 R (3 / 10) (snd y) = Some z"
    and r2: "(f, st') = draw_rest R U sev proto (fst y) (fst z) (snd z) u"
    by (auto simp: bind_eq_Some_conv case_prod_beta)
  show ?thesis
    using that [of sev proto s2 "fst y" "snd y" "fst z" "snd z"] sev proto_def s2_def y z r2
    by simp
qed

lemma draw_fields_ok:
  assumes "rng_ok R" and "draw_fields R U (s, u) = Some (Inr (f, st'))"
  shows "fields_ok f" and "f_uid f = hex8 (U u)" and "snd st' = Suc u"
proof -
  from assms(2) obtain sev proto s2 s_ip s3 d_ip s4 where c:
    "sev \<in> set (map fst SEVERITY)"
    "proto = fst (choice R PROTOCOLS (snd (weighted_choice R SEVERITY s)))"
    "random_ipv4 R (6 / 10) s2 = Some (s_ip, s3)"
    "random_ipv4 R (3 / 10) s3 = Some (d_ip, s4)"
    "(f, st') = draw_rest R U sev proto s_ip d_ip s4 u"
    by (rule draw_fields_cases)
  have p: "proto \<in> set PROTOCOLS"
    unfolding c(2) by (rule choice_in_set [OF assms(1)]) (simp add: PROTOCOLS_def)
  note ips = random_ipv4_clean [OF assms(1) c(3)] random_ipv4_clean [OF assms(1) c(4)]
  note props = draw_rest_props [OF assms(1) c(1) p ips, of U s4 u]
  have f: "f = fst (draw_rest R U sev proto s_ip d_ip s4 u)"
    and st: "st' = snd (draw_rest R U sev proto s_ip d_ip s4 u)"
    using c(5) by (metis fst_conv, metis snd_conv)
  show "fields_ok f" unfolding f by (rule props(1))
  show "f_uid f = hex8 (U u)" unfolding f by (rule props(2))
  show "snd st' = Suc u" unfolding st by (rule props(3))
qed

lemma draw_fields_urandom:
  assumes "rng_ok R" and "draw_fields R U (s, u) = Some (Inr (f, st'))"
  shows "draw_fields R U' (s, u) = Some (Inr (f\<lparr>f_uid := hex8 (U' u)\<rparr>, st'))"
proof -
  from assms(2) obtain sev proto s2 s_ip s3 d_ip s4 where c:
    "fst (weighted_choice R SEVERITY s) = Inr sev" "sev \<in> set (map fst SEVERITY)"
    "proto = fst (choice R PROTOCOLS (snd (weighted_choice R SEVERITY s)))"
    "s2 = snd (choice R PROTOCOLS (snd (weighted_choice R SEVERITY s)))"
    "random_ipv4 R (6 / 10) s2 = Some (s_ip, s3)"
    "random_ipv4 R (3 / 10) s3 = Some (d_ip, s4)"
    "(f, st') = draw_rest R U sev proto s_ip d_ip s4 u"
    by (rule draw_fields_cases)
  have p: "proto \<in> set PROTOCOLS"
    unfolding c(3) by (rule choice_in_set [OF assms(1)]) (simp add: PROTOCOLS_def)
  note ips = random_ipv4_clean [OF assms(1) c(5)] random_ipv4_clean [OF assms(1) c(6)]
  have "draw_rest R U' sev proto s_ip d_ip s4 u = (f\<lparr>f_uid := hex8 (U' u)\<rparr>, st')"
    using draw_rest_props(4) [OF assms(1) c(2) p ips, of U' s4 u U] c(7) [symmetric] by simp
  then show ?thesis
    unfolding draw_fields_rest c(3) [symmetric] c(4) [symmetric]
    by (simp only: c(1) c(5) c(6) Option.bind_lunit sum.case prod.case)
qed

subsection \<open>Hyphens, control characters and trailing whitespace\<close>

lemma digit_dash_append:
  "digit_dash (xs @ ys) \<longleftrightarrow>
     digit_dash xs \<or> digit_dash ys
     \<or> (xs \<noteq> [] \<and> ys \<noteq> [] \<and> is_digit (last xs) \<and> hd ys = CHR ''-'')"
proof (induction xs)
  case Nil
  show ?case by simp
next
  case (Cons a xs)
  show ?case
  proof (cases xs)
    case Nil
    then show ?thesis by (cases ys) auto
  next
    case (Cons b cs)
    with Cons.IH show ?thesis by auto
  qed
qed

lemma no_dash_no_digit_dash: "CHR ''-'' \<notin> set s \<Longrightarrow> \<not> digit_dash s"
  by (induction s rule: digit_dash.induct) auto

lemma clean_no_dash: "clean s \<Longrightarrow> CHR ''-'' \<notin> set s"
  by (auto simp: clean_def list_all_iff)

lemma clean_no_control: "clean s \<Longrightarrow> list_all (\<lambda>c. c \<notin> set CONTROL) s"
  by (auto simp: clean_def list_all_iff)

lemma filter_clean: "clean s \<Longrightarrow> filter (\<lambda>ch. ch \<notin> set CONTROL) s = s"
  by (induction s) auto

lemma digit_dash_at:
  "Suc j < length s \<Longrightarrow> is_digit (s ! j) \<Longrightarrow> s ! Suc j = CHR ''-'' \<Longrightarrow> digit_dash s"
proof (induction s arbitrary: j rule: digit_dash.induct)
  case (1 a b cs)
  then show ?case by (cases j) auto
qed simp_all

lemma timestamp_match_digit_dash:
  assumes "timestamp_match_at s i"
  shows "digit_dash s"
proof -
  from assms have m: "list_all2 (\<lambda>p c. p c) TIMESTAMP_PATTERN (take 19 (drop i s))"
    by (simp add: timestamp_match_at_def)
  then have len: "length (take 19 (drop i s)) = 19"
    by (auto dest: list_all2_lengthD simp: TIMESTAMP_PATTERN_def)
  then have i: "i + 19 \<le> length s" by simp
  have "(TIMESTAMP_PATTERN ! 3) (take 19 (drop i s) ! 3)"
    by (rule list_all2_nthD [OF m]) (simp add: TIMESTAMP_PATTERN_def)
  then have d: "is_digit (s ! (i + 3))" using i by (simp add: TIMESTAMP_PATTERN_def)
  have "(TIMESTAMP_PATTERN ! 4) (take 19 (drop i s) ! 4)"
    by (rule list_all2_nthD [OF m]) (simp add: TIMESTAMP_PATTERN_def)
  then have h: "s ! Suc (i + 3) = CHR ''-''"
    using i by (simp add: TIMESTAMP_PATTERN_def add.commute)
  show ?thesis by (rule digit_dash_at [OF _ d h]) (use i in simp)
qed

lemma no_digit_dash_no_timestamp: "\<not> digit_dash s \<Longrightarrow> timestamp_search s = None"
  by (auto simp: timestamp_search_def find_None_iff dest: timestamp_match_digit_dash)

lemma digit_dash_prefix: "\<not> digit_dash (xs @ ys) \<Longrightarrow> \<not> digit_dash xs"
  by (simp add: digit_dash_append)

lemma rstrip_prefix: "\<exists>zs. s = rstrip s @ zs"
proof -
  have "rev s = takeWhile is_space (rev s) @ dropWhile is_space (rev s)" by simp
  then have "s = rev (dropWhile is_space (rev s)) @ rev (takeWhile is_space (rev s))"
    by (metis rev_append rev_rev_ident)
  then show ?thesis unfolding rstrip_def by blast
qed

lemma rstrip_id: "s \<noteq> [] \<Longrightarrow> \<not> is_space (last s) \<Longrightarrow> rstrip s = s"
proof -
  assume "s \<noteq> []" "\<not> is_space (last s)"
  then have "dropWhile is_space (rev s) = rev s"
    by (cases "rev s") (auto simp: last_rev hd_rev [symmetric] simp del: rev_is_Nil_conv)
  then show ?thesis by (simp add: rstrip_def)
qed

subsection \<open>The shape of a formatted line\<close>

lemma message_split: "message f = message_head f @ f_uid f"
  by (simp add: message_def message_head_def)

lemma format_line_split:
  "format_line ts host pid f = line_head ts host pid f @ filter (\<lambda>ch. ch \<notin> set CONTROL) (f_uid f)"
  by (simp add: format_line_def line_head_def safe_message_def message_split)

lemma line_head_uid [simp]: "line_head ts host pid (f\<lparr>f_uid := x\<rparr>) = line_head ts host pid f"
  by (simp add: line_head_def message_head_def)

lemma format_line_hex8:
  assumes "f_uid f = hex8 n"
  shows "format_line ts host pid f = line_head ts host pid f @ hex8 n"
  by (simp add: format_line_split assms filter_clean hex8_clean)

lemma clean_members:
  "x \<in> set PROTOCOLS \<Longrightarrow> clean x"
  "x \<in> set INTERFACES \<Longrightarrow> clean x"
  "x \<in> set ACTIONS \<Longrightarrow> clean x"
  "x \<in> set (REASONS_INFO @ REASONS_WARN @ REASONS_ERROR) \<Longrightarrow> clean x"
  by (auto simp: PROTOCOLS_def INTERFACES_def ACTIONS_def REASONS_INFO_def REASONS_WARN_def
      REASONS_ERROR_def CONTROL_def)

lemma severity_label:
  assumes "x \<in> set (map fst SEVERITY)"
  shows "clean x" and "x \<noteq> []" and "\<not> is_digit (last x)"
  using assms by (auto simp: SEVERITY_def CONTROL_def is_digit_def)

lemma message_head_shape:
  assumes "fields_ok f"
  obtains T where
    "filter (\<lambda>ch. ch \<notin> set CONTROL) (message_head f) = ''%FW-'' @ f_sev f @ ''-*.'' @ T"
    "clean T"
proof -
  define T where "T = str_int (f_rule f) @ '': '' @ f_reason f
     @ ''; src='' @ f_s_ip f @ '' dst='' @ f_d_ip f @ '' proto='' @ f_proto f @ '' ''
     @ ''spt='' @ str_int (f_s_pt f) @ '' dpt='' @ str_int (f_d_pt f)
     @ '' action='' @ f_action f @ '' bytes='' @ str_int (f_bytes_cnt f)
     @ '' pkts='' @ str_int (f_pkts f) @ '' ''
     @ ''rule='' @ str_int (f_rule f) @ '' in='' @ f_in_if f @ '' out='' @ f_out_if f
     @ '' uid=''"
  from assms have T: "clean T"
    unfolding T_def fields_ok_def
    by (simp add: str_int_clean clean_members CONTROL_def del: set_append)
  have m: "message_head f = ''%FW-'' @ f_sev f @ ''-*.'' @ T"
    by (simp add: message_head_def T_def)
  have s: "clean (f_sev f)" using assms severity_label(1) by (simp add: fields_ok_def)
  have "filter (\<lambda>ch. ch \<notin> set CONTROL) (message_head f) = ''%FW-'' @ f_sev f @ ''-*.'' @ T"
    unfolding m by (simp add: filter_clean s T) (simp add: CONTROL_def)
  with T show ?thesis by (rule that [rotated])
qed

lemma shape_no_digit_dash:
  assumes "clean A" and "x \<in> set (map fst SEVERITY)" and "clean T"
  shows "\<not> digit_dash (A @ ''%FW-'' @ x @ ''-*.'' @ T)"
proof -
  note x = severity_label [OF assms(2)]
  have nd: "\<not> digit_dash B" if "clean B" for B
    using that by (intro no_dash_no_digit_dash clean_no_dash)
  have hdT: "T \<noteq> [] \<Longrightarrow> hd T \<noteq> CHR ''-''"
    using assms(3) by (cases T) simp_all
  have t1: "\<not> digit_dash (''-*.'' @ T)"
    using nd [OF assms(3)] hdT by (subst digit_dash_append) (simp add: is_digit_def)
  have t2: "\<not> digit_dash (x @ ''-*.'' @ T)"
    using nd [OF x(1)] t1 x(2,3) by (subst digit_dash_append) simp
  have hdx: "hd (x @ ''-*.'' @ T) \<noteq> CHR ''-''"
    using x(1,2) by (cases x) simp_all
  have t3: "\<not> digit_dash (''%FW-'' @ x @ ''-*.'' @ T)"
    using t2 hdx by (subst digit_dash_append) (simp add: is_digit_def)
  show ?thesis
    using nd [OF assms(1)] t3 by (subst digit_dash_append) simp
qed

lemma line_no_digit_dash:
  assumes "fields_ok f" and "clean host" and "0 \<le> pid"
  shows "\<not> digit_dash (line_head ts host pid f @ hex8 n)"
proof -
  obtain T where T:
    "filter (\<lambda>ch. ch \<notin> set CONTROL) (message_head f) = ''%FW-'' @ f_sev f @ ''-*.'' @ T"
    "clean T"
    using message_head_shape [OF assms(1)] by blast
  define A where "A = format_syslog_ts ts @ '' '' @ host @ '' firewall['' @ str_int pid @ '']: ''"
  have A: "clean A"
    unfolding A_def using format_syslog_ts_form [of ts] assms(2,3)
    by (simp add: str_int_clean CONTROL_def)
  have "line_head ts host pid f @ hex8 n
          = A @ ''%FW-'' @ f_sev f @ ''-*.'' @ (T @ hex8 n)"
    by (simp add: line_head_def T(1) A_def)
  moreover have "\<not> digit_dash (A @ ''%FW-'' @ f_sev f @ ''-*.'' @ (T @ hex8 n))"
    using assms(1) A T(2) by (intro shape_no_digit_dash) (simp_all add: fields_ok_def hex8_clean)
  ultimately show ?thesis by simp
qed

lemma str_int_no_control: "list_all (\<lambda>c. c \<notin> set CONTROL) (str_int i)"
proof -
  have "list_all (\<lambda>c. c \<notin> set CONTROL) (str_nat n)" for n
    using str_nat_digits [of n] by (auto simp: list_all_iff dest: is_digit_plain)
  then show ?thesis by (simp add: str_int_def CONTROL_def)
qed

lemma line_no_control:
  assumes "list_all (\<lambda>c. c \<notin> set CONTROL) host"
  shows "list_all (\<lambda>c. c \<notin> set CONTROL) (format_line ts host pid f)"
proof -
  have "list_all (\<lambda>c. c \<notin> set CONTROL) (format_syslog_ts ts)"
    using format_syslog_ts_form [of ts] by (simp add: clean_no_control)
  moreover have "list_all (\<lambda>c. c \<notin> set CONTROL) (filter (\<lambda>ch. ch \<notin> set CONTROL) m)" for m
    by (simp add: list_all_iff)
  ultimately show ?thesis
    unfolding format_line_def safe_message_def using assms str_int_no_control [of pid]
    by (simp add: CONTROL_def)
qed

lemma line_rstrip:
  assumes "f_uid f = hex8 n"
  shows "rstrip (format_line ts host pid f) = format_line ts host pid f"
proof -
  have ne: "hex8 n \<noteq> []" using hex8_length [of n] by auto
  then have "last (format_line ts host pid f) = last (hex8 n)"
    by (simp add: format_line_hex8 [OF assms])
  then show ?thesis
    using ne by (intro rstrip_id) (simp_all add: format_line_hex8 [OF assms] hex8_last)
qed

lemma line_take15: "take 15 (line_head ts host pid f @ x) = format_syslog_ts ts"
  using format_syslog_ts_form [of ts] by (simp add: line_head_def)

subsection \<open>The loop of generate\_logs\<close>

lemma gen_run_step:
  "gen_run R U host pid (Suc n) ts st =
     (case dt_add ts (timedelta_seconds (fst (rnd_expovariate R (1 / (12 / 10)) (fst st)))) of
        Inl e \<Rightarrow> Some ([], Some e)
      | Inr ts' \<Rightarrow>
          (case draw_fields R U (snd (rnd_expovariate R (1 / (12 / 10)) (fst st)), snd st) of
             None \<Rightarrow> None
           | Some (Inl e) \<Rightarrow> Some ([], Some e)
           | Some (Inr (f, st')) \<Rightarrow>
               (case gen_run R U host pid n ts' st' of
                  None \<Rightarrow> None
                | Some (rest, err) \<Rightarrow>
                    Some ((ts', rstrip (format_line ts' host pid f) @ [CHR 0x0A]) # rest, err))))"
  by (simp add: make_log_line_def case_prod_beta split: sum.splits option.splits prod.splits)

lemma gen_loop_0 [simp]: "gen_loop R U host pid 0 ts st = Some (Inr [])"
  by (simp add: gen_loop_def outcome_def)

lemma gen_loop_step:
  "gen_loop R U host pid (Suc n) ts st =
     (case dt_add ts (timedelta_seconds (fst (rnd_expovariate R (1 / (12 / 10)) (fst st)))) of
        Inl e \<Rightarrow> Some (Inl e)
      | Inr ts' \<Rightarrow>
          (case draw_fields R U (snd (rnd_expovariate R (1 / (12 / 10)) (fst st)), snd st) of
             None \<Rightarrow> None
           | Some (Inl e) \<Rightarrow> Some (Inl e)
           | Some (Inr (f, st')) \<Rightarrow>
               (case gen_loop R U host pid n ts' st' of
                  None \<Rightarrow> None
                | Some (Inl e) \<Rightarrow> Some (Inl e)
                | Some (Inr rest) \<Rightarrow>
                    Some (Inr ((ts', rstrip (format_line ts' host pid f) @ [CHR 0x0A]) # rest)))))"
  unfolding gen_loop_def gen_run_step
  by (simp add: outcome_def split: sum.splits option.splits prod.splits)

lemma gen_loop_Suc_cases:
  assumes "gen_loop R U host pid (Suc n) ts st = Some (Inr recs)"
  obtains ts' f st' rest where
    "dt_add ts (timedelta_seconds (fst (rnd_expovariate R (1 / (12 / 10)) (fst st)))) = Inr ts'"
    "draw_fields R U (snd (rnd_expovariate R (1 / (12 / 10)) (fst st)), snd st)
       = Some (Inr (f, st'))"
    "gen_loop R U host pid n ts' st' = Some (Inr rest)"
    "recs = (ts', rstrip (format_line ts' host pid f) @ [CHR 0x0A]) # rest"
  using assms unfolding gen_loop_step
  by (auto split: sum.splits option.splits prod.splits)

lemma gen_run_total:
  assumes "public_terminates R"
  shows "\<exists>recs err. gen_run R U host pid n ts st = Some (recs, err)"
proof (induction n arbitrary: ts st)
  case 0
  show ?case by simp
next
  case (Suc n)
  obtain f st' where d:
    "draw_fields R U (snd (rnd_expovariate R (1 / (12 / 10)) (fst st)), snd st)
       = Some (Inr (f, st'))"
    using draw_fields_total [OF assms] by blast
  show ?case
  proof (cases "dt_add ts (timedelta_seconds (fst (rnd_expovariate R (1 / (12 / 10)) (fst st))))")
    case (Inl e)
    then show ?thesis unfolding gen_run_step by simp
  next
    case (Inr ts')
    from Suc.IH [of ts' st'] obtain rest err where
      "gen_run R U host pid n ts' st' = Some (rest, err)"
      by blast
    then show ?thesis unfolding gen_run_step Inr d by simp
  qed
qed

lemma dt_add_Inl: "dt_add t d = Inl e \<Longrightarrow> e = OverflowError"
  by (auto simp: dt_add_def split: if_splits)

lemma gen_run_lines:
  assumes "gen_run R U host pid n ts st = Some (recs, err)"
  shows "list_all (\<lambda>(t, l). \<exists>f. l = rstrip (format_line t host pid f) @ [CHR 0x0A]) recs
         \<and> (case err of None \<Rightarrow> length recs = n
             | Some e \<Rightarrow> e = OverflowError \<and> length recs < n)"
  using assms
proof (induction n arbitrary: ts st recs)
  case 0
  then show ?case by auto
next
  case (Suc n)
  show ?case
  proof (cases "dt_add ts (timedelta_seconds (fst (rnd_expovariate R (1 / (12 / 10)) (fst st))))")
    case (Inl e)
    with Suc.prems dt_add_Inl [OF Inl] show ?thesis unfolding gen_run_step by auto
  next
    case (Inr ts')
    show ?thesis
    proof (cases "draw_fields R U (snd (rnd_expovariate R (1 / (12 / 10)) (fst st)), snd st)")
      case None
      with Suc.prems show ?thesis unfolding gen_run_step Inr by simp
    next
      case (Some r)
      with draw_fields_no_raise [of R U _ "snd st"] obtain f st' where r: "r = Inr (f, st')"
        by (cases r) auto
      from Suc.prems obtain rest where
        g: "gen_run R U host pid n ts' st' = Some (rest, err)"
           "recs = (ts', rstrip (format_line ts' host pid f) @ [CHR 0x0A]) # rest"
        unfolding gen_run_step Inr Some r by (auto split: option.splits)
      from Suc.IH [OF g(1)] show ?thesis unfolding g(2) by (auto split: option.splits)
    qed
  qed
qed

lemma round_half_even_nonneg: "0 \<le> x \<Longrightarrow> 0 \<le> round_half_even x"
  by (auto simp: round_half_even_def Let_def)

lemma timedelta_nonneg: "0 \<le> x \<Longrightarrow> 0 \<le> timedelta_seconds x"
  by (simp add: timedelta_seconds_def round_half_even_nonneg)

lemma dt_add_Inr: "dt_add t d = Inr t' \<Longrightarrow> t' = t + d"
  by (auto simp: dt_add_def split: if_splits)

lemma gen_loop_times:
  assumes "rng_ok R" and "gen_loop R U host pid n ts st = Some (Inr recs)"
  shows "sorted (map fst recs) \<and> list_all (\<lambda>t. ts \<le> t) (map fst recs)"
  using assms(2)
proof (induction n arbitrary: ts st recs)
  case 0
  then show ?case by simp
next
  case (Suc n)
  from Suc.prems obtain ts' f st' rest where
    r: "dt_add ts (timedelta_seconds (fst (rnd_expovariate R (1 / (12 / 10)) (fst st)))) = Inr ts'"
       "gen_loop R U host pid n ts' st' = Some (Inr rest)"
       "recs = (ts', rstrip (format_line ts' host pid f) @ [CHR 0x0A]) # rest"
    by (rule gen_loop_Suc_cases)
  have "0 \<le> fst (rnd_expovariate R (1 / (12 / 10)) (fst st))"
    using assms(1) by (simp add: rng_ok_def)
  then have le: "ts \<le> ts'" using dt_add_Inr [OF r(1)] timedelta_nonneg by fastforce
  from Suc.IH [OF r(2)] le show ?case
    unfolding r(3) by (auto simp: list_all_iff)
qed

lemma gen_loop_heads:
  assumes "rng_ok R" and "gen_loop R U host pid n ts (s, u) = Some (Inr recs)"
  shows "\<exists>hs. length hs = n
           \<and> list_all (\<lambda>(t, h). \<exists>f. fields_ok f \<and> h = line_head t host pid f) hs
           \<and> (\<forall>V. gen_loop R V host pid n ts (s, u)
                  = Some (Inr (map (\<lambda>(i, t, h). (t, h @ hex8 (V i) @ [CHR 0x0A]))
                                 (zip [u..<u + n] hs))))"
  using assms(2)
proof (induction n arbitrary: ts s u recs)
  case 0
  then show ?case by simp
next
  case (Suc n)
  define s1 where "s1 = snd (rnd_expovariate R (1 / (12 / 10)) s)"
  from Suc.prems obtain ts' f st' rest where
    r: "dt_add ts (timedelta_seconds (fst (rnd_expovariate R (1 / (12 / 10)) s))) = Inr ts'"
       "draw_fields R U (s1, u) = Some (Inr (f, st'))"
       "gen_loop R U host pid n ts' st' = Some (Inr rest)"
    unfolding s1_def by (rule gen_loop_Suc_cases) simp
  note ok = draw_fields_ok [OF assms(1) r(2)]
  obtain s' where st': "st' = (s', Suc u)" using ok(3) by (cases st') simp
  from Suc.IH [OF r(3) [unfolded st']] obtain hs where hs: "length hs = n"
    "list_all (\<lambda>(t, h). \<exists>f. fields_ok f \<and> h = line_head t host pid f) hs"
    "\<And>V. gen_loop R V host pid n ts' (s', Suc u)
           = Some (Inr (map (\<lambda>(i, t, h). (t, h @ hex8 (V i) @ [CHR 0x0A]))
                          (zip [Suc u..<Suc u + n] hs)))"
    by blast
  define h where "h = line_head ts' host pid f"
  have line: "rstrip (format_line ts' host pid (f\<lparr>f_uid := hex8 (V u)\<rparr>)) = h @ hex8 (V u)" for V
  proof -
    have u: "f_uid (f\<lparr>f_uid := hex8 (V u)\<rparr>) = hex8 (V u)" by simp
    have "rstrip (format_line ts' host pid (f\<lparr>f_uid := hex8 (V u)\<rparr>))
            = format_line ts' host pid (f\<lparr>f_uid := hex8 (V u)\<rparr>)"
      by (rule line_rstrip [OF u])
    also have "\<dots> = line_head ts' host pid (f\<lparr>f_uid := hex8 (V u)\<rparr>) @ hex8 (V u)"
      by (rule format_line_hex8 [OF u])
    finally show ?thesis by (simp add: h_def)
  qed
  have upt: "[u..<u + Suc n] = u # [Suc u..<Suc u + n]"
    by (simp add: upt_conv_Cons del: upt_Suc)
  have "gen_loop R V host pid (Suc n) ts (s, u)
          = Some (Inr (map (\<lambda>(i, t, h). (t, h @ hex8 (V i) @ [CHR 0x0A]))
                         (zip [u..<u + Suc n] ((ts', h) # hs))))" for V
    unfolding gen_loop_step upt
    using r(1) draw_fields_urandom [OF assms(1) r(2), of V] hs(3) [of V] line [of V]
    by (simp add: s1_def st')
  moreover have "list_all (\<lambda>(t, h). \<exists>f. fields_ok f \<and> h = line_head t host pid f) ((ts', h) # hs)"
    using hs(2) ok(1) h_def by auto
  moreover have "length ((ts', h) # hs) = Suc n" using hs(1) by simp
  ultimately show ?case by blast
qed

lemma gen_loop_demo:
  assumes "0 \<le> ts" and "0 \<le> timedelta_seconds x"
    and "ts + int n * timedelta_seconds x \<le> dt_max"
  shows "\<exists>recs. gen_loop (demo_rng x) U host pid n ts st = Some (Inr recs)
           \<and> map fst recs = map (\<lambda>k. ts + int k * timedelta_seconds x) [1..<Suc n]"
  using assms(1,3)
proof (induction n arbitrary: ts st)
  case 0
  then show ?case by simp
next
  case (Suc n)
  define d where "d = timedelta_seconds x"
  have d: "0 \<le> d" using assms(2) by (simp add: d_def)
  have "0 \<le> int n * d" using d by simp
  then have le: "ts + d \<le> dt_max" using Suc.prems(2) by (simp add: d_def [symmetric] algebra_simps)
  have t: "dt_add ts (timedelta_seconds (fst (rnd_expovariate (demo_rng x) (1 / (12 / 10)) (fst st))))
             = Inr (ts + d)"
    using Suc.prems(1) d le by (simp add: dt_add_def d_def [symmetric])
  obtain f st' where f:
    "draw_fields (demo_rng x) U (snd (rnd_expovariate (demo_rng x) (1 / (12 / 10)) (fst st)), snd st)
       = Some (Inr (f, st'))"
    using draw_fields_total [OF public_terminates_demo] by blast
  have "0 \<le> ts + d" using Suc.prems(1) d by simp
  moreover have "ts + d + int n * timedelta_seconds x \<le> dt_max"
    using Suc.prems(2) by (simp add: d_def algebra_simps)
  ultimately obtain rest where rest:
    "gen_loop (demo_rng x) U host pid n (ts + d) st' = Some (Inr rest)"
    "map fst rest = map (\<lambda>k. ts + d + int k * timedelta_seconds x) [1..<Suc n]"
    using Suc.IH by blast
  have upt: "[1..<Suc (Suc n)] = 1 # map Suc [1..<Suc n]"
    by (simp add: upt_conv_Cons map_Suc_upt del: upt_Suc)
  have "map fst rest = map (\<lambda>k. ts + int (Suc k) * d) [1..<Suc n]"
    unfolding rest(2) d_def by (simp add: algebra_simps)
  then show ?case
    unfolding gen_loop_step t f upt
    by (simp add: rest(1) comp_def del: upt_Suc) (simp add: d_def)
qed

subsection \<open>generate\_logs\<close>

lemma generate_run_loop:
  "generate_run R E count start_time seed =
     gen_run R (env_urandom E) ''fw01.corp.example.com''
       (fst (randint R 1000 9999
               (case seed of None \<Rightarrow> env_seed_state E | Some n \<Rightarrow> rnd_seed R n)))
       (nat count)
       (case start_time of None \<Rightarrow> env_now E | Some t \<Rightarrow> t)
       (snd (randint R 1000 9999
               (case seed of None \<Rightarrow> env_seed_state E | Some n \<Rightarrow> rnd_seed R n)), 0)"
  by (simp add: generate_run_def case_prod_beta Let_def)

lemma generate_records_loop:
  "generate_records R E count start_time seed =
     gen_loop R (env_urandom E) ''fw01.corp.example.com''
       (fst (randint R 1000 9999
               (case seed of None \<Rightarrow> env_seed_state E | Some n \<Rightarrow> rnd_seed R n)))
       (nat count)
       (case start_time of None \<Rightarrow> env_now E | Some t \<Rightarrow> t)
       (snd (randint R 1000 9999
               (case seed of None \<Rightarrow> env_seed_state E | Some n \<Rightarrow> rnd_seed R n)), 0)"
  by (simp add: generate_records_def generate_run_loop gen_loop_def)

lemma host_clean: "clean ''fw01.corp.example.com''"
  by (simp add: CONTROL_def)

lemma generate_run_file:
  assumes "generate_run R E count start_time seed = Some (recs, err)"
  shows "\<exists>ls. written_file R E count start_time seed
                 = Some (concat (map (\<lambda>l. l @ [CHR 0x0A]) ls))
              \<and> list_all (\<lambda>l. list_all (\<lambda>c. c \<notin> set CONTROL) l) ls
              \<and> length ls = length recs
              \<and> (case err of None \<Rightarrow> length ls = nat count
                  | Some e \<Rightarrow> e = OverflowError \<and> length ls < nat count)"
proof -
  define host where "host = ''fw01.corp.example.com''"
  define pid where "pid = fst (randint R 1000 9999
      (case seed of None \<Rightarrow> env_seed_state E | Some n \<Rightarrow> rnd_seed R n))"
  have host: "list_all (\<lambda>c. c \<notin> set CONTROL) host"
    unfolding host_def using host_clean by (rule clean_no_control)
  from assms have
    "list_all (\<lambda>(t, l). \<exists>f. l = rstrip (format_line t host pid f) @ [CHR 0x0A]) recs
     \<and> (case err of None \<Rightarrow> length recs = nat count
         | Some e \<Rightarrow> e = OverflowError \<and> length recs < nat count)"
    unfolding generate_run_loop host_def pid_def by (rule gen_run_lines)
  then have len: "case err of None \<Rightarrow> length recs = nat count
                  | Some e \<Rightarrow> e = OverflowError \<and> length recs < nat count"
    and each: "\<And>t l. (t, l) \<in> set recs
                 \<Longrightarrow> \<exists>f. l = rstrip (format_line t host pid f) @ [CHR 0x0A]"
    by (auto simp: list_all_iff)
  define ls where "ls = map (\<lambda>(t, l). butlast l) recs"
  have l: "snd r = butlast (snd r) @ [CHR 0x0A]
           \<and> list_all (\<lambda>c. c \<notin> set CONTROL) (butlast (snd r))" if "r \<in> set recs" for r
  proof -
    obtain t l where r: "r = (t, l)" by (cases r)
    with that each obtain f where f: "l = rstrip (format_line t host pid f) @ [CHR 0x0A]"
      by blast
    obtain zs where "format_line t host pid f = rstrip (format_line t host pid f) @ zs"
      using rstrip_prefix by blast
    then have "list_all (\<lambda>c. c \<notin> set CONTROL) (rstrip (format_line t host pid f))"
      using line_no_control [OF host, of t pid f] by (metis list_all_append)
    then show ?thesis by (simp add: r f)
  qed
  have "map snd recs = map (\<lambda>l. l @ [CHR 0x0A]) ls"
    unfolding ls_def using l by (auto simp: case_prod_beta)
  then have "written_file R E count start_time seed
               = Some (concat (map (\<lambda>l. l @ [CHR 0x0A]) ls))"
    by (simp add: written_file_def assms)
  moreover have n: "length ls = length recs" by (simp add: ls_def)
  moreover have "list_all (\<lambda>l. list_all (\<lambda>c. c \<notin> set CONTROL) l) ls"
    unfolding ls_def using l by (auto simp: list_all_iff case_prod_beta)
  moreover have "case err of None \<Rightarrow> length ls = nat count
                 | Some e \<Rightarrow> e = OverflowError \<and> length ls < nat count"
    using len unfolding n .
  ultimately show ?thesis by blast
qed

lemma generate_run_ends:
  assumes "eventually_public R"
  shows "\<exists>recs err. generate_run R E count start_time seed = Some (recs, err)"
  unfolding generate_run_loop
  by (rule gen_run_total [OF eventually_public_terminates [OF assms]])

lemma count_line_feeds:
  "list_all (\<lambda>l. list_all (\<lambda>c. c \<notin> set CONTROL) l) ls
     \<Longrightarrow> length (filter (\<lambda>c. c = CHR 0x0A) (concat (map (\<lambda>l. l @ [CHR 0x0A]) ls))) = length ls"
proof (induction ls)
  case Nil
  show ?case by simp
next
  case (Cons l ls)
  from Cons.prems have "CHR 0x0A \<notin> set l" by (auto simp: list_all_iff CONTROL_def)
  then have "filter (\<lambda>c. c = CHR 0x0A) l = []" by (auto simp: filter_empty_conv)
  with Cons show ?case by simp
qed

text \<open>
  C4, as amended. A run of \<open>generate_logs\<close> with count 0 writes the empty file and raises
  nothing. With a random source that does not draw reserved octets for ever, every run
  ends. When a run ends without an exception, the file holds exactly count lines (none
  for a negative count); when it ends by an exception, the exception is the
  \<open>OverflowError\<close> of a timestamp past \<open>datetime.max\<close> and the file holds the lines written
  before it, fewer than count. In both cases every line is ended by one line feed and
  holds no carriage return, line feed, tab, vertical tab or form feed before it.
\<close>

theorem generate_logs_line_count:
  "generate_run R E 0 start_time seed = Some ([], None)
   \<and> written_file R E 0 start_time seed = Some []
   \<and> (eventually_public R \<longrightarrow>
        (\<exists>recs err. generate_run R E count start_time seed = Some (recs, err)))
   \<and> (generate_run R E count start_time seed = Some (recs, err) \<longrightarrow>
        (\<exists>ls. written_file R E count start_time seed
                 = Some (concat (map (\<lambda>l. l @ [CHR 0x0A]) ls))
              \<and> list_all (\<lambda>l. list_all (\<lambda>c. c \<notin> set CONTROL) l) ls
              \<and> (case err of None \<Rightarrow> length ls = nat count
                  | Some e \<Rightarrow> e = OverflowError \<and> length ls < nat count)))"
proof (intro conjI impI)
  show "generate_run R E 0 start_time seed = Some ([], None)"
    by (simp add: generate_run_loop)
  then show "written_file R E 0 start_time seed = Some []"
    by (simp add: written_file_def)
next
  assume "eventually_public R"
  then show "\<exists>recs err. generate_run R E count start_time seed = Some (recs, err)"
    by (rule generate_run_ends)
next
  assume "generate_run R E count start_time seed = Some (recs, err)"
  from generate_run_file [OF this]
  show "\<exists>ls. written_file R E count start_time seed
                 = Some (concat (map (\<lambda>l. l @ [CHR 0x0A]) ls))
              \<and> list_all (\<lambda>l. list_all (\<lambda>c. c \<notin> set CONTROL) l) ls
              \<and> (case err of None \<Rightarrow> length ls = nat count
                  | Some e \<Rightarrow> e = OverflowError \<and> length ls < nat count)"
    by blast
qed

lemma timedelta_quarter: "timedelta_seconds (1 / 4) = 250000"
  by (simp add: timedelta_seconds_def round_half_even_def)

lemma timedelta_tiny: "timedelta_seconds (1 / 4000000) = 0"
  by (simp add: timedelta_seconds_def round_half_even_def)

lemma generate_records_demo:
  assumes "0 \<le> (case start_time of None \<Rightarrow> env_now E | Some t \<Rightarrow> t)"
    and "0 \<le> timedelta_seconds x"
    and "(case start_time of None \<Rightarrow> env_now E | Some t \<Rightarrow> t)
           + int (nat count) * timedelta_seconds x \<le> dt_max"
  shows "\<exists>recs. generate_records (demo_rng x) E count start_time seed = Some (Inr recs)
           \<and> map fst recs
               = map (\<lambda>k. (case start_time of None \<Rightarrow> env_now E | Some t \<Rightarrow> t)
                            + int k * timedelta_seconds x) [1..<Suc (nat count)]"
  unfolding generate_records_loop by (rule gen_loop_demo [OF assms])

lemma generate_run_demo:
  assumes "generate_records R E count start_time seed = Some (Inr records)"
  shows "generate_run R E count start_time seed = Some (records, None)"
  using assms
  by (cases "generate_run R E count start_time seed")
     (auto simp: generate_records_def outcome_def split: option.splits)

lemma generate_run_overflow_demo:
  "\<exists>l. generate_run (demo_rng (1 / 4)) (demo_env 0) 2 (Some (dt_max - 250000)) (Some 42)
          = Some ([(dt_max, l)], Some OverflowError)"
proof -
  define st where
    "st = (snd (randint (demo_rng (1 / 4)) 1000 9999 (rnd_seed (demo_rng (1 / 4)) 42)), 0 :: nat)"
  have two: "nat 2 = Suc (Suc 0)" by simp
  obtain f st' where f:
    "draw_fields (demo_rng (1 / 4)) (env_urandom (demo_env 0))
       (snd (rnd_expovariate (demo_rng (1 / 4)) (1 / (12 / 10)) (fst st)), snd st)
       = Some (Inr (f, st'))"
    using draw_fields_total [OF public_terminates_demo] by blast
  have a: "dt_add (dt_max - 250000) (timedelta_seconds (1 / 4)) = Inr dt_max"
    by (simp add: timedelta_quarter dt_add_def dt_max_def)
  have b: "dt_add dt_max (timedelta_seconds (1 / 4)) = Inl OverflowError"
    by (simp add: timedelta_quarter dt_add_def dt_max_def)
  show ?thesis
    unfolding generate_run_loop two gen_run_step
    using f by (simp add: a b st_def)
qed

theorem generate_logs_line_count_witness:
  "eventually_public (demo_rng (1 / 4))
   \<and> (\<exists>recs. generate_run (demo_rng (1 / 4)) (demo_env 0) 3 None (Some 42) = Some (recs, None)
         \<and> (\<exists>ls. written_file (demo_rng (1 / 4)) (demo_env 0) 3 None (Some 42)
                    = Some (concat (map (\<lambda>l. l @ [CHR 0x0A]) ls))
                \<and> length ls = 3
                \<and> list_all (\<lambda>l. list_all (\<lambda>c. c \<notin> set CONTROL) l) ls))
   \<and> (\<exists>recs. generate_run (demo_rng (1 / 4)) (demo_env 0) 2 (Some (dt_max - 250000)) (Some 42)
                = Some (recs, Some OverflowError)
         \<and> (\<exists>ls. written_file (demo_rng (1 / 4)) (demo_env 0) 2 (Some (dt_max - 250000)) (Some 42)
                    = Some (concat (map (\<lambda>l. l @ [CHR 0x0A]) ls))
                \<and> length ls < 2
                \<and> list_all (\<lambda>l. list_all (\<lambda>c. c \<notin> set CONTROL) l) ls))"
proof -
  obtain recs where
    "generate_records (demo_rng (1 / 4)) (demo_env 0) 3 None (Some 42) = Some (Inr recs)"
    using generate_records_demo [where start_time = None and E = "demo_env 0" and x = "1 / 4"
        and count = 3 and seed = "Some 42"]
    by (auto simp: timedelta_quarter demo_env_def dt_max_def)
  then have r: "generate_run (demo_rng (1 / 4)) (demo_env 0) 3 None (Some 42) = Some (recs, None)"
    by (rule generate_run_demo)
  obtain l where o:
    "generate_run (demo_rng (1 / 4)) (demo_env 0) 2 (Some (dt_max - 250000)) (Some 42)
       = Some ([(dt_max, l)], Some OverflowError)"
    using generate_run_overflow_demo by blast
  have "\<exists>ls. written_file (demo_rng (1 / 4)) (demo_env 0) 3 None (Some 42)
                    = Some (concat (map (\<lambda>l. l @ [CHR 0x0A]) ls))
                \<and> length ls = 3
                \<and> list_all (\<lambda>l. list_all (\<lambda>c. c \<notin> set CONTROL) l) ls"
    using r generate_logs_line_count [where R = "demo_rng (1 / 4)" and E = "demo_env 0"
      and start_time = None and seed = "Some 42" and count = 3 and recs = recs and err = None]
    by auto
  moreover have
    "\<exists>ls. written_file (demo_rng (1 / 4)) (demo_env 0) 2 (Some (dt_max - 250000)) (Some 42)
                    = Some (concat (map (\<lambda>l. l @ [CHR 0x0A]) ls))
                \<and> length ls < 2
                \<and> list_all (\<lambda>l. list_all (\<lambda>c. c \<notin> set CONTROL) l) ls"
    using o generate_logs_line_count [where R = "demo_rng (1 / 4)" and E = "demo_env 0"
      and start_time = "Some (dt_max - 250000)" and seed = "Some 42" and count = 2
      and recs = "[(dt_max, l)]" and err = "Some OverflowError"]
    by auto
  ultimately show ?thesis using r o eventually_public_demo [of "1 / 4"] by blast
qed

text \<open>
  C4 as stated fails: a run for two records that starts a quarter of a second before
  \<open>datetime.max\<close>, with intervals of a quarter of a second, writes one line and then
  raises \<open>OverflowError\<close>; its file holds one line, not two.
\<close>

theorem generate_logs_partial_file:
  "line_count (written_file (demo_rng (1 / 4)) (demo_env 0) 2 (Some (dt_max - 250000)) (Some 42))
     = Some 1
   \<and> generate_logs (demo_rng (1 / 4)) (demo_env 0) 2 (Some (dt_max - 250000)) (Some 42)
     = Some (Inl OverflowError)"
proof -
  obtain l where run:
    "generate_run (demo_rng (1 / 4)) (demo_env 0) 2 (Some (dt_max - 250000)) (Some 42)
       = Some ([(dt_max, l)], Some OverflowError)"
    using generate_run_overflow_demo by blast
  from generate_run_file [OF run] obtain ls where ls:
    "written_file (demo_rng (1 / 4)) (demo_env 0) 2 (Some (dt_max - 250000)) (Some 42)
       = Some (concat (map (\<lambda>l. l @ [CHR 0x0A]) ls))"
    "list_all (\<lambda>l. list_all (\<lambda>c. c \<notin> set CONTROL) l) ls" "length ls = 1"
    by auto
  have "line_count (written_file (demo_rng (1 / 4)) (demo_env 0) 2 (Some (dt_max - 250000))
          (Some 42)) = Some 1"
    unfolding ls(1) line_count_def using count_line_feeds [OF ls(2)] ls(3) by simp
  moreover have "generate_logs (demo_rng (1 / 4)) (demo_env 0) 2 (Some (dt_max - 250000)) (Some 42)
                   = Some (Inl OverflowError)"
    using run by (simp add: generate_logs_def generate_records_def outcome_def)
  ultimately show ?thesis by simp
qed

text \<open>
  C6, as amended. In every run of \<open>generate_logs\<close> that completes, with a random source
  that keeps its contract, the timestamps of the records are non-decreasing: each is not
  earlier than the one before it, and none is earlier than the start time. Two records
  may carry the same timestamp.
\<close>

theorem record_times_nondecreasing:
  assumes "rng_ok R"
    and "generate_records R E count start_time seed = Some (Inr records)"
  shows "sorted (map fst records)
         \<and> list_all (\<lambda>t. (case start_time of None \<Rightarrow> env_now E | Some t0 \<Rightarrow> t0) \<le> t)
              (map fst records)"
  using assms(2) unfolding generate_records_loop by (rule gen_loop_times [OF assms(1)])

theorem record_times_nondecreasing_witness:
  "rng_ok (demo_rng (1 / 4))
   \<and> (\<exists>records.
         generate_records (demo_rng (1 / 4)) (demo_env 0) 3 (Some 63900000000000000) (Some 42)
           = Some (Inr records)
         \<and> sorted (map fst records)
         \<and> list_all (\<lambda>t. 63900000000000000 \<le> t) (map fst records))"
proof -
  have ok: "rng_ok (demo_rng (1 / 4))" by (rule rng_ok_demo) simp
  obtain records where r:
    "generate_records (demo_rng (1 / 4)) (demo_env 0) 3 (Some 63900000000000000) (Some 42)
       = Some (Inr records)"
    using generate_records_demo [where start_time = "Some 63900000000000000"
        and E = "demo_env 0" and x = "1 / 4" and count = 3 and seed = "Some 42"]
    by (auto simp: timedelta_quarter dt_max_def)
  from record_times_nondecreasing [OF ok r] ok r show ?thesis by auto
qed

text \<open>
  C6 as stated fails: when the interval drawn is a quarter of a microsecond,
  \<open>timedelta\<close> rounds it to nothing and the two records of the run carry the same
  timestamp.
\<close>

theorem record_times_repeat:
  "record_times
     (generate_records (demo_rng (1 / 4000000)) (demo_env 0) 2 (Some 63900000000000000) (Some 42))
   = Some [63900000000000000, 63900000000000000]"
proof -
  obtain records where r:
    "generate_records (demo_rng (1 / 4000000)) (demo_env 0) 2 (Some 63900000000000000) (Some 42)
       = Some (Inr records)"
    "map fst records = map (\<lambda>k. 63900000000000000 + int k * timedelta_seconds (1 / 4000000))
                         [1..<Suc (nat 2)]"
    using generate_records_demo [where start_time = "Some 63900000000000000"
        and E = "demo_env 0" and x = "1 / 4000000" and count = 2 and seed = "Some 42"]
    by (auto simp: timedelta_tiny dt_max_def)
  have "[1..<Suc (nat 2)] = [1, 2]" by (simp add: upt_conv_Cons)
  with r(2) have "map fst records = [63900000000000000, 63900000000000000]"
    by (simp add: timedelta_tiny)
  then show ?thesis by (simp add: record_times_def r(1))
qed

lemma gen_loop_urandom_differs:
  assumes "rng_ok R"
    and "gen_loop R U host pid (Suc n) ts (s, u) = Some (Inr recs)"
    and "hex8 (U u) \<noteq> hex8 (V u)"
  shows "map_option (map_sum id (\<lambda>records. concat (map snd records)))
           (gen_loop R V host pid (Suc n) ts (s, u))
         \<noteq> map_option (map_sum id (\<lambda>records. concat (map snd records)))
             (gen_loop R U host pid (Suc n) ts (s, u))"
proof -
  obtain hs where hs: "length hs = Suc n"
    "\<And>W. gen_loop R W host pid (Suc n) ts (s, u)
           = Some (Inr (map (\<lambda>(i, t, h). (t, h @ hex8 (W i) @ [CHR 0x0A]))
                          (zip [u..<u + Suc n] hs)))"
    using gen_loop_heads [OF assms(1,2)] by blast
  obtain t h hs' where c: "hs = (t, h) # hs'" using hs(1) by (cases hs) auto
  have upt: "[u..<u + Suc n] = u # [Suc u..<Suc u + n]"
    by (simp add: upt_conv_Cons del: upt_Suc)
  have out: "map_option (map_sum id (\<lambda>records. concat (map snd records)))
                (gen_loop R W host pid (Suc n) ts (s, u))
              = Some (Inr (h @ hex8 (W u) @ CHR 0x0A
                  # concat (map snd (map (\<lambda>(i, t, h). (t, h @ hex8 (W i) @ [CHR 0x0A]))
                              (zip [Suc u..<Suc u + n] hs')))))" for W
    unfolding hs(2) upt c by simp
  have "length (hex8 (U u)) = length (hex8 (V u))" by (simp add: hex8_length)
  with assms(3) show ?thesis unfolding out by simp
qed

lemma hex8_zero_one: "hex8 0 \<noteq> hex8 1"
  by (simp add: hex8_def upt_conv_Cons digit_char_def)

lemma generate_logs_urandom_differs:
  assumes "rng_ok R"
    and "generate_records R E count start_time seed = Some (Inr recs)"
    and "0 < count"
    and "env_seed_state E' = env_seed_state E" and "env_now E' = env_now E"
    and "hex8 (env_urandom E 0) \<noteq> hex8 (env_urandom E' 0)"
  shows "generate_logs R E' count start_time seed \<noteq> generate_logs R E count start_time seed"
proof -
  obtain n where n: "nat count = Suc n" using assms(3) by (cases "nat count") auto
  define s0 where "s0 = (case seed of None \<Rightarrow> env_seed_state E | Some n \<Rightarrow> rnd_seed R n)"
  define pid where "pid = fst (randint R 1000 9999 s0)"
  define s1 where "s1 = snd (randint R 1000 9999 s0)"
  define ts where "ts = (case start_time of None \<Rightarrow> env_now E | Some t \<Rightarrow> t)"
  have a: "generate_records R E count start_time seed
             = gen_loop R (env_urandom E) ''fw01.corp.example.com'' pid (Suc n) ts (s1, 0)"
    unfolding generate_records_loop n s0_def pid_def s1_def ts_def by (rule refl)
  have b: "generate_records R E' count start_time seed
             = gen_loop R (env_urandom E') ''fw01.corp.example.com'' pid (Suc n) ts (s1, 0)"
    unfolding generate_records_loop n assms(4,5) s0_def pid_def s1_def ts_def by (rule refl)
  from assms(2) have "gen_loop R (env_urandom E) ''fw01.corp.example.com'' pid (Suc n) ts (s1, 0)
                        = Some (Inr recs)"
    unfolding a .
  from gen_loop_urandom_differs [where V = "env_urandom E'", OF assms(1) this assms(6)]
  show ?thesis unfolding generate_logs_def a b .
qed

text \<open>
  C1 fails on the code: two runs with the same count, seed and start time, in which
  \<open>os.urandom\<close> hands \<open>uuid4\<close> different bytes, write different files.
\<close>

theorem generate_logs_not_reproducible:
  "generate_logs (demo_rng (1 / 4)) (demo_env 0) 1 (Some 63900000000000000) (Some 42)
   \<noteq> generate_logs (demo_rng (1 / 4)) (demo_env 1) 1 (Some 63900000000000000) (Some 42)"
proof -
  have ok: "rng_ok (demo_rng (1 / 4))" by (rule rng_ok_demo) simp
  obtain records where r:
    "generate_records (demo_rng (1 / 4)) (demo_env 1) 1 (Some 63900000000000000) (Some 42)
       = Some (Inr records)"
    using generate_records_demo [where start_time = "Some 63900000000000000"
        and E = "demo_env 1" and x = "1 / 4" and count = 1 and seed = "Some 42"]
    by (auto simp: timedelta_quarter dt_max_def)
  have e: "env_seed_state (demo_env 0) = env_seed_state (demo_env 1)"
          "env_now (demo_env 0) = env_now (demo_env 1)"
    by (simp_all add: demo_env_def)
  have u: "hex8 (env_urandom (demo_env 1) 0) \<noteq> hex8 (env_urandom (demo_env 0) 0)"
    using hex8_zero_one by (simp add: demo_env_def)
  show ?thesis
    by (rule generate_logs_urandom_differs [OF ok r _ e u]) simp
qed

section \<open>The summarizer\<close>

subsection \<open>The aggregates that the filters leave alone\<close>

lemma after_window_frame [simp]: "frame (after_window keyword level msg st) = frame st"
  by (simp add: after_window_def frame_def)




subsection \<open>The run on the five lines\<close>

lemma replace_T_fixture:
  "replace_T ''2025-10-20T10:00:00'' = ''2025-10-20 10:00:00''"
  "replace_T ''2025-10-20T10:00:05'' = ''2025-10-20 10:00:05''"
  "replace_T ''2025-10-20T10:00:09'' = ''2025-10-20 10:00:09''"
  "replace_T ''2025-10-20T10:01:05'' = ''2025-10-20 10:01:05''"
  by (simp_all add: replace_T_def)

lemmas calendar_defs = fromisoformat_def ISO_FORM_def is_digit_def dec_val_def days_in_month_def
  ymd2ord_def days_before_year_def days_before_month_def is_leap_def DAYS_IN_MONTH_def
  DAYS_BEFORE_MONTH_def Let_def

lemma fromisoformat_fixture:
  "fromisoformat ''2025-10-20 10:00:00'' = Inr 63896551200000000"
  "fromisoformat ''2025-10-20 10:00:05'' = Inr 63896551205000000"
  "fromisoformat ''2025-10-20 10:00:09'' = Inr 63896551209000000"
  "fromisoformat ''2025-10-20 10:01:05'' = Inr 63896551265000000"
  by (simp_all add: calendar_defs)

lemma fromisoformat_month13: "fromisoformat ''2025-13-01 00:00:00'' = Inl ValueError"
  by (simp add: calendar_defs)


lemma fixture_lines:
  "read_lines fixture =
     [''2025-10-20T10:00:00 INFO service started'' @ [CHR 0x0A],
      ''2025-10-20T10:00:05 ERROR db connection to primary failed after 3 retries'' @ [CHR 0x0A],
      ''2025-10-20T10:00:09 WARNING slow query'' @ [CHR 0x0A],
      ''2025-10-20T10:01:05 ERROR db connection to primary failed after 3 retries'' @ [CHR 0x0A],
      ''plain text'' @ [CHR 0x0A]]"
  by code_simp

lemma fixture_parse:
  "parse_log_line (''2025-10-20T10:00:00 INFO service started'' @ [CHR 0x0A])
     = (Some ''2025-10-20T10:00:00'', ''INFO'', ''2025-10-20T10:00:00 INFO service started'')"
  "parse_log_line
     (''2025-10-20T10:00:05 ERROR db connection to primary failed after 3 retries'' @ [CHR 0x0A])
     = (Some ''2025-10-20T10:00:05'', ''ERROR'',
        ''2025-10-20T10:00:05 ERROR db connection to primary failed after 3 retries'')"
  "parse_log_line (''2025-10-20T10:00:09 WARNING slow query'' @ [CHR 0x0A])
     = (Some ''2025-10-20T10:00:09'', ''WARNING'', ''2025-10-20T10:00:09 WARNING slow query'')"
  "parse_log_line
     (''2025-10-20T10:01:05 ERROR db connection to primary failed after 3 retries'' @ [CHR 0x0A])
     = (Some ''2025-10-20T10:01:05'', ''ERROR'',
        ''2025-10-20T10:01:05 ERROR db connection to primary failed after 3 retries'')"
  "parse_log_line (''plain text'' @ [CHR 0x0A]) = (None, ''UNKNOWN'', ''plain text'')"
  by code_simp+

lemma fixture_short_msg:
  "short_msg ''2025-10-20T10:00:05 ERROR db connection to primary failed after 3 retries''
     = ''ERROR db connection to primary failed after''"
  "short_msg ''2025-10-20T10:01:05 ERROR db connection to primary failed after 3 retries''
     = ''ERROR db connection to primary failed after''"
  by code_simp+

lemma fixture_run:
  "summarize_log fixture None None None
     = Inr \<lparr>level_counts = [(''INFO'', 1), (''ERROR'', 2), (''WARNING'', 1), (''UNKNOWN'', 1)],
            error_messages = [(''ERROR db connection to primary failed after'', 2)],
            total_lines = 5, first_ts = Some 63896551200000000,
            last_ts = Some 63896551265000000\<rparr>"
  by (simp add: summarize_log_def fixture_lines summarize_line_def fixture_parse
      replace_T_fixture fromisoformat_fixture after_window_def fixture_short_msg
      initial_summary_def del: append.simps)




subsection \<open>The error signatures\<close>

lemma map_of_counter_incr:
  "map_of (counter_incr k m) k'
     = (if k' = k then Some (case map_of m k of None \<Rightarrow> 1 | Some n \<Rightarrow> n + 1) else map_of m k')"
  by (induction m) auto

lemma counter_get_incr:
  "counter_get (counter_incr k m) k' = counter_get m k' + (if k' = k then 1 else 0)"
  by (simp add: counter_get_def map_of_counter_incr split: option.splits)

lemma contains_empty: "contains haystack []"
  by (auto simp: contains_def list_ex_iff)

lemma keyword_test:
  "(case keyword of None \<Rightarrow> False | Some k \<Rightarrow> k \<noteq> [] \<and> \<not> contains (lower msg) (lower k))
     = (\<not> has_keyword keyword msg)"
  by (cases keyword) (auto simp: has_keyword_def lower_def contains_empty)

lemma after_window_errors:
  "error_messages (after_window keyword level msg st)
     = (if level \<in> set [''ERROR'', ''CRITICAL''] \<and> has_keyword keyword msg
        then counter_incr (short_msg msg) (error_messages st) else error_messages st)"
  unfolding after_window_def keyword_test by simp

lemma summarize_line_errors:
  assumes "summarize_line keyword start_date end_date st line = Inr st'"
  shows "error_messages st'
           = (if selected keyword start_date end_date line
              then counter_incr (signature line) (error_messages st) else error_messages st)"
proof -
  obtain ts level where p: "parse_log_line line = (ts, level, strip line)"
    by (simp add: parse_log_line_def)
  show ?thesis
  proof (cases ts)
    case None
    with assms show ?thesis
      unfolding summarize_line_def Let_def p prod.case
      by (auto simp: after_window_errors selected_def p in_window_def signature_def)
  next
    case (Some t)
    show ?thesis
    proof (cases "fromisoformat (replace_T t)")
      case (Inl e)
      with assms Some show ?thesis
        unfolding summarize_line_def Let_def p prod.case by simp
    next
      case (Inr d)
      with assms Some show ?thesis
        unfolding summarize_line_def Let_def p prod.case
        by (auto simp: after_window_errors selected_def p in_window_def signature_def
            split: if_splits option.splits)
    qed
  qed
qed

lemma summarize_loop_errors:
  assumes "summarize_loop keyword start_date end_date st lines = Inr st'"
  shows "counter_get (error_messages st') sig
           = counter_get (error_messages st) sig
             + length (filter (\<lambda>line. selected keyword start_date end_date line
                                     \<and> signature line = sig) lines)"
  using assms
proof (induction lines arbitrary: st)
  case Nil
  then show ?case by simp
next
  case (Cons line rest)
  from Cons.prems obtain st1 where
    l: "summarize_line keyword start_date end_date st line = Inr st1"
    and r: "summarize_loop keyword start_date end_date st1 rest = Inr st'"
    by (cases "summarize_line keyword start_date end_date st line") simp_all
  from Cons.IH [OF r] show ?case
    unfolding summarize_line_errors [OF l]
    by (auto simp: counter_get_incr)
qed

text \<open>
  C7. A line that enters the error signatures (level ERROR or CRITICAL, inside the
  date window, holding the keyword) adds exactly one to the count of its signature, the
  up to seven words after the first word of the trimmed line joined by single spaces,
  and changes no other count; a line that does not enter them changes none. When the
  pass completes, the count of every signature is the number of lines with that
  signature that entered.
\<close>

theorem error_signature_count:
  "(summarize_line keyword start_date end_date st line = Inr st' \<longrightarrow>
      counter_get (error_messages st') sig
        = counter_get (error_messages st) sig
          + (if selected keyword start_date end_date line
                \<and> join_space (take 7 (drop 1 (split (strip line)))) = sig then 1 else 0))
   \<and> (summarize_log content keyword start_date end_date = Inr final \<longrightarrow>
        counter_get (error_messages final) sig
          = length (filter (\<lambda>line. selected keyword start_date end_date line
                                  \<and> join_space (take 7 (drop 1 (split (strip line)))) = sig)
                      (read_lines content)))"
proof (intro conjI impI)
  assume "summarize_line keyword start_date end_date st line = Inr st'"
  from summarize_line_errors [OF this] show
    "counter_get (error_messages st') sig
        = counter_get (error_messages st) sig
          + (if selected keyword start_date end_date line
                \<and> join_space (take 7 (drop 1 (split (strip line)))) = sig then 1 else 0)"
    by (auto simp: counter_get_incr signature_def short_msg_def)
next
  assume "summarize_log content keyword start_date end_date = Inr final"
  from summarize_loop_errors [OF this [unfolded summarize_log_def], of sig] show
    "counter_get (error_messages final) sig
          = length (filter (\<lambda>line. selected keyword start_date end_date line
                                  \<and> join_space (take 7 (drop 1 (split (strip line)))) = sig)
                      (read_lines content))"
    by (simp add: initial_summary_def counter_get_def signature_def short_msg_def)
qed

lemma fixture_first_error:
  "summarize_line None None None initial_summary
     (''2025-10-20T10:00:05 ERROR db connection to primary failed after 3 retries'' @ [CHR 0x0A])
   = Inr \<lparr>level_counts = [(''ERROR'', 1)],
          error_messages = [(''ERROR db connection to primary failed after'', 1)],
          total_lines = 1, first_ts = Some 63896551205000000,
          last_ts = Some 63896551205000000\<rparr>"
  by (simp add: summarize_line_def fixture_parse replace_T_fixture fromisoformat_fixture
      after_window_def fixture_short_msg initial_summary_def del: append.simps)

theorem error_signature_count_witness:
  "(\<exists>st'. summarize_line None None None initial_summary
            (''2025-10-20T10:00:05 ERROR db connection to primary failed after 3 retries''
             @ [CHR 0x0A]) = Inr st'
          \<and> counter_get (error_messages st') ''ERROR db connection to primary failed after'' = 1)
   \<and> (\<exists>final. summarize_log fixture None None None = Inr final
          \<and> error_messages final = [(''ERROR db connection to primary failed after'', 2)]
          \<and> length (filter (\<lambda>line. selected None None None line
                    \<and> join_space (take 7 (drop 1 (split (strip line))))
                        = ''ERROR db connection to primary failed after'')
                 (read_lines fixture)) = 2)"
proof -
  note count = error_signature_count [where keyword = None and start_date = None
      and end_date = None and sig = "''ERROR db connection to primary failed after''"]
  have "length (filter (\<lambda>line. selected None None None line
                    \<and> join_space (take 7 (drop 1 (split (strip line))))
                        = ''ERROR db connection to primary failed after'')
                 (read_lines fixture)) = 2"
    using count [THEN conjunct2, rule_format, OF fixture_run]
    by (simp add: counter_get_def)
  moreover have "counter_get
      (error_messages \<lparr>level_counts = [(''ERROR'', 1)],
          error_messages = [(''ERROR db connection to primary failed after'', 1)],
          total_lines = 1, first_ts = Some 63896551205000000,
          last_ts = Some 63896551205000000\<rparr>)
      ''ERROR db connection to primary failed after'' = 1"
    using count [THEN conjunct1, rule_format, OF fixture_first_error]
    by (simp add: counter_get_def)
  ultimately show ?thesis
    using fixture_run fixture_first_error by (simp del: append.simps)
qed

subsection \<open>Timestamps that are no date-time\<close>















subsection \<open>Summarizing a generated file\<close>

lemma gen_run_shape:
  assumes "rng_ok R" and "gen_run R U host pid n ts st = Some (recs, err)"
  shows "list_all (\<lambda>(t, l). \<exists>f k. fields_ok f \<and> l = line_head t host pid f @ hex8 k @ [CHR 0x0A])
           recs"
  using assms(2)
proof (induction n arbitrary: ts st recs)
  case 0
  then show ?case by auto
next
  case (Suc n)
  show ?case
  proof (cases "dt_add ts (timedelta_seconds (fst (rnd_expovariate R (1 / (12 / 10)) (fst st))))")
    case (Inl e)
    with Suc.prems show ?thesis unfolding gen_run_step by auto
  next
    case (Inr ts')
    define s1 where "s1 = snd (rnd_expovariate R (1 / (12 / 10)) (fst st))"
    show ?thesis
    proof (cases "draw_fields R U (s1, snd st)")
      case None
      with Suc.prems show ?thesis unfolding gen_run_step Inr s1_def by simp
    next
      case (Some r)
      with draw_fields_no_raise [of R U s1 "snd st"] obtain f st' where r: "r = Inr (f, st')"
        by (cases r) auto
      from Suc.prems obtain rest where
        g: "gen_run R U host pid n ts' st' = Some (rest, err)"
           "recs = (ts', rstrip (format_line ts' host pid f) @ [CHR 0x0A]) # rest"
        unfolding gen_run_step Inr Some [unfolded s1_def] r by (auto split: option.splits)
      note ok = draw_fields_ok [OF assms(1) Some [unfolded r]]
      have "rstrip (format_line ts' host pid f) = line_head ts' host pid f @ hex8 (U (snd st))"
        using line_rstrip [OF ok(2)] format_line_hex8 [OF ok(2)] by simp
      with ok(1) Suc.IH [OF g(1)] show ?thesis unfolding g(2) by auto
    qed
  qed
qed

lemma read_lines_from_line:
  assumes "CHR 0x0D \<notin> set l" and "CHR 0x0A \<notin> set l"
  shows "read_lines_from cur (l @ CHR 0x0A # rest) = (cur @ l @ [CHR 0x0A]) # read_lines_from [] rest"
  using assms
proof (induction l arbitrary: cur)
  case Nil
  show ?case by (cases rest) simp_all
next
  case (Cons c l)
  obtain c' cs where n: "l @ CHR 0x0A # rest = c' # cs" by (cases l) auto
  have "read_lines_from cur ((c # l) @ CHR 0x0A # rest) = read_lines_from (cur @ [c]) (c' # cs)"
    using Cons.prems by (auto simp: n)
  also have "\<dots> = ((cur @ [c]) @ l @ [CHR 0x0A]) # read_lines_from [] rest"
    unfolding n [symmetric] using Cons.prems by (intro Cons.IH) simp_all
  finally show ?case by simp
qed

lemma read_lines_concat:
  assumes "list_all (\<lambda>l. CHR 0x0D \<notin> set l \<and> CHR 0x0A \<notin> set l) ls"
  shows "read_lines (concat (map (\<lambda>l. l @ [CHR 0x0A]) ls)) = map (\<lambda>l. l @ [CHR 0x0A]) ls"
  unfolding read_lines_def using assms
proof (induction ls)
  case Nil
  show ?case by simp
next
  case (Cons l ls)
  then show ?case using read_lines_from_line [of l "[]"] by simp
qed

lemma summarize_line_no_timestamp:
  assumes "timestamp_search line = None"
  shows "\<exists>st'. summarize_line keyword start_date end_date st line = Inr st'
           \<and> first_ts st' = first_ts st \<and> last_ts st' = last_ts st
           \<and> total_lines st' = total_lines st + 1"
proof -
  obtain level msg where p: "parse_log_line line = (None, level, msg)"
    using assms by (simp add: parse_log_line_def)
  have "frame (after_window keyword level msg x) = frame x" for x by simp
  then have "first_ts (after_window keyword level msg x) = first_ts x
             \<and> last_ts (after_window keyword level msg x) = last_ts x
             \<and> total_lines (after_window keyword level msg x) = total_lines x" for x
    by (simp add: frame_def)
  then show ?thesis
    unfolding summarize_line_def Let_def p prod.case by simp
qed

lemma summarize_loop_no_timestamp:
  assumes "list_all (\<lambda>l. timestamp_search l = None) lines"
  shows "\<exists>st'. summarize_loop keyword start_date end_date st lines = Inr st'
           \<and> first_ts st' = first_ts st \<and> last_ts st' = last_ts st
           \<and> total_lines st' = total_lines st + length lines"
  using assms
proof (induction lines arbitrary: st)
  case Nil
  show ?case by simp
next
  case (Cons line rest)
  from Cons.prems have "timestamp_search line = None" by simp
  from summarize_line_no_timestamp [OF this, of keyword start_date end_date st]
  obtain st1 where l: "summarize_line keyword start_date end_date st line = Inr st1"
    "first_ts st1 = first_ts st" "last_ts st1 = last_ts st"
    "total_lines st1 = total_lines st + 1"
    by blast
  from Cons.prems have "list_all (\<lambda>l. timestamp_search l = None) rest" by simp
  from Cons.IH [OF this, of st1] l show ?case by auto
qed

lemma generated_line:
  assumes "fields_ok f" and "clean host" and "0 \<le> pid"
  shows "\<not> digit_dash (line_head t host pid f @ hex8 k @ [CHR 0x0A])"
    and "CHR 0x0D \<notin> set (line_head t host pid f @ hex8 k)"
    and "CHR 0x0A \<notin> set (line_head t host pid f @ hex8 k)"
proof -
  have "\<not> digit_dash (line_head t host pid f @ hex8 k)"
    using assms by (rule line_no_digit_dash)
  then have "\<not> digit_dash ((line_head t host pid f @ hex8 k) @ [CHR 0x0A])"
    unfolding digit_dash_append by simp
  then show "\<not> digit_dash (line_head t host pid f @ hex8 k @ [CHR 0x0A])" by simp
  define g where "g = f\<lparr>f_uid := hex8 k\<rparr>"
  have u: "f_uid g = hex8 k" by (simp add: g_def)
  have "list_all (\<lambda>c. c \<notin> set CONTROL) (format_line t host pid g)"
    using clean_no_control [OF assms(2)] by (rule line_no_control)
  then have "list_all (\<lambda>c. c \<notin> set CONTROL) (line_head t host pid f @ hex8 k)"
    unfolding format_line_hex8 [OF u] by (simp add: g_def)
  then show "CHR 0x0D \<notin> set (line_head t host pid f @ hex8 k)"
    and "CHR 0x0A \<notin> set (line_head t host pid f @ hex8 k)"
    by (auto simp: list_all_iff CONTROL_def)
qed


lemma generate_run_shape:
  assumes "rng_ok R" and "generate_run R E count start_time seed = Some (recs, err)"
  shows "list_all (\<lambda>(t, l). take 15 l = format_syslog_ts t \<and> \<not> digit_dash l
                     \<and> (\<exists>b. l = b @ [CHR 0x0A] \<and> CHR 0x0D \<notin> set b \<and> CHR 0x0A \<notin> set b)) recs"
proof -
  define host where "host = ''fw01.corp.example.com''"
  define pid where "pid = fst (randint R 1000 9999
      (case seed of None \<Rightarrow> env_seed_state E | Some n \<Rightarrow> rnd_seed R n))"
  have host: "clean host" unfolding host_def by (rule host_clean)
  have "1000 \<le> pid" unfolding pid_def by (rule randint_lower)
  then have pid: "0 \<le> pid" by simp
  from assms(2) have
    "list_all (\<lambda>(t, l). \<exists>f k. fields_ok f \<and> l = line_head t host pid f @ hex8 k @ [CHR 0x0A])
       recs"
    unfolding generate_run_loop host_def pid_def by (rule gen_run_shape [OF assms(1)])
  then have each: "\<exists>f k. fields_ok f \<and> l = line_head t host pid f @ hex8 k @ [CHR 0x0A]"
    if "(t, l) \<in> set recs" for t l
    using that by (auto simp: list_all_iff)
  have "take 15 l = format_syslog_ts t \<and> \<not> digit_dash l
        \<and> (\<exists>b. l = b @ [CHR 0x0A] \<and> CHR 0x0D \<notin> set b \<and> CHR 0x0A \<notin> set b)"
    if "(t, l) \<in> set recs" for t l
  proof -
    from each [OF that] obtain f k where f: "fields_ok f"
      and l: "l = line_head t host pid f @ hex8 k @ [CHR 0x0A]"
      by blast
    note g = generated_line [OF f host pid, of t k]
    have "l = (line_head t host pid f @ hex8 k) @ [CHR 0x0A]" by (simp add: l)
    with g(2,3) have "\<exists>b. l = b @ [CHR 0x0A] \<and> CHR 0x0D \<notin> set b \<and> CHR 0x0A \<notin> set b"
      by blast
    moreover have "take 15 l = format_syslog_ts t" unfolding l by (rule line_take15)
    moreover have "\<not> digit_dash l" unfolding l by (rule g(1))
    ultimately show ?thesis by simp
  qed
  then show ?thesis by (auto simp: list_all_iff)
qed

lemma generated_file_summary:
  assumes "rng_ok R" and "generate_run R E count start_time seed = Some (recs, err)"
  shows "list_all (\<lambda>(ts, line). take 15 line = format_syslog_ts ts
                     \<and> syslog_form (format_syslog_ts ts)
                     \<and> (\<forall>i. \<not> timestamp_match_at line i)) recs
         \<and> (\<exists>content st. written_file R E count start_time seed = Some content
               \<and> summarize_log content keyword start_date end_date = Inr st
               \<and> total_lines st = length recs
               \<and> first_ts st = None \<and> last_ts st = None
               \<and> time_span_line st = ''Time span: N/A''
               \<and> header_lines file_path st ! 2 = ''Time span: N/A'')"
proof -
  note shape = generate_run_shape [OF assms]
  then have each: "take 15 l = format_syslog_ts t" "\<not> digit_dash l"
    "\<exists>b. l = b @ [CHR 0x0A] \<and> CHR 0x0D \<notin> set b \<and> CHR 0x0A \<notin> set b"
    if "(t, l) \<in> set recs" for t l
    using that by (auto simp: list_all_iff)
  have a: "list_all (\<lambda>(ts, line). take 15 line = format_syslog_ts ts
                     \<and> syslog_form (format_syslog_ts ts)
                     \<and> (\<forall>i. \<not> timestamp_match_at line i)) recs"
    using each(1,2) format_syslog_ts_form timestamp_match_digit_dash
    by (fastforce simp: list_all_iff)
  define ls where "ls = map (\<lambda>(t, l). butlast l) recs"
  have "snd r = butlast (snd r) @ [CHR 0x0A]
        \<and> CHR 0x0D \<notin> set (butlast (snd r)) \<and> CHR 0x0A \<notin> set (butlast (snd r))"
    if "r \<in> set recs" for r
  proof -
    obtain t l where r: "r = (t, l)" by (cases r)
    from each(3) [of t l] that r obtain b where
      "l = b @ [CHR 0x0A]" "CHR 0x0D \<notin> set b" "CHR 0x0A \<notin> set b"
      by blast
    then show ?thesis by (simp add: r)
  qed
  then have m: "map snd recs = map (\<lambda>l. l @ [CHR 0x0A]) ls"
    and c: "list_all (\<lambda>l. CHR 0x0D \<notin> set l \<and> CHR 0x0A \<notin> set l) ls"
    unfolding ls_def by (auto simp: list_all_iff case_prod_beta)
  define content where "content = concat (map snd recs)"
  have w: "written_file R E count start_time seed = Some content"
    by (simp add: written_file_def assms(2) content_def)
  have rl: "read_lines content = map snd recs"
    unfolding content_def m by (rule read_lines_concat [OF c])
  have "list_all (\<lambda>l. timestamp_search l = None) (map snd recs)"
    using each(2) no_digit_dash_no_timestamp by (fastforce simp: list_all_iff)
  from summarize_loop_no_timestamp [OF this, of keyword start_date end_date initial_summary]
  obtain st where st: "summarize_log content keyword start_date end_date = Inr st"
    "first_ts st = None" "last_ts st = None" "total_lines st = length recs"
    unfolding summarize_log_def rl by (auto simp: initial_summary_def)
  have "time_span_line st = ''Time span: N/A''" by (simp add: time_span_line_def st(2))
  moreover from this have "header_lines file_path st ! 2 = ''Time span: N/A''"
    by (simp add: header_lines_def)
  ultimately show ?thesis using a w st by blast
qed

text \<open>
  C10. With a random source that does not draw reserved octets for ever, every run of
  \<open>generate_logs\<close> ends. In every run that ends, by an exception or not, with a random
  source that keeps its contract, each line written starts with its timestamp in the
  syslog form
  \<open>Mon DD HH:MM:SS\<close>, and the timestamp pattern of the summarizer matches at no position
  of the line. Summarizing the file written, with any filters, completes, counts every
  line, leaves the first and the last timestamp unset, and the time span of the report
  reads \<open>N/A\<close>.
\<close>

theorem generated_file_time_span:
  assumes "rng_ok R"
  shows "(eventually_public R \<longrightarrow>
            (\<exists>recs err. generate_run R E count start_time seed = Some (recs, err)))
         \<and> (generate_run R E count start_time seed = Some (recs, err) \<longrightarrow>
              list_all (\<lambda>(ts, line). take 15 line = format_syslog_ts ts
                          \<and> syslog_form (format_syslog_ts ts)
                          \<and> (\<forall>i. \<not> timestamp_match_at line i)) recs
              \<and> (\<exists>content st. written_file R E count start_time seed = Some content
                    \<and> summarize_log content keyword start_date end_date = Inr st
                    \<and> total_lines st = length recs
                    \<and> first_ts st = None \<and> last_ts st = None
                    \<and> time_span_line st = ''Time span: N/A''
                    \<and> header_lines file_path st ! 2 = ''Time span: N/A''))"
  using generate_run_ends [of R E count start_time seed]
    generated_file_summary [OF assms, of E count start_time seed recs err]
  by blast

theorem generated_file_time_span_witness:
  "rng_ok (demo_rng (1 / 4)) \<and> eventually_public (demo_rng (1 / 4))
   \<and> (\<exists>recs. generate_run (demo_rng (1 / 4)) (demo_env 0) 3 None (Some 42) = Some (recs, None)
         \<and> length recs = 3
         \<and> list_all (\<lambda>(ts, line). take 15 line = format_syslog_ts ts
                     \<and> syslog_form (format_syslog_ts ts)
                     \<and> (\<forall>i. \<not> timestamp_match_at line i)) recs
         \<and> (\<exists>content st.
               written_file (demo_rng (1 / 4)) (demo_env 0) 3 None (Some 42) = Some content
               \<and> summarize_log content (Some ''drop'') None None = Inr st
               \<and> total_lines st = length recs
               \<and> first_ts st = None \<and> last_ts st = None
               \<and> time_span_line st = ''Time span: N/A''
               \<and> header_lines ''fw.log'' st ! 2 = ''Time span: N/A''))"
proof -
  have ok: "rng_ok (demo_rng (1 / 4))" by (rule rng_ok_demo) simp
  obtain recs where
    "generate_records (demo_rng (1 / 4)) (demo_env 0) 3 None (Some 42) = Some (Inr recs)"
    using generate_records_demo [where start_time = None and E = "demo_env 0" and x = "1 / 4"
        and count = 3 and seed = "Some 42"]
    by (auto simp: timedelta_quarter demo_env_def dt_max_def)
  then have r: "generate_run (demo_rng (1 / 4)) (demo_env 0) 3 None (Some 42) = Some (recs, None)"
    by (rule generate_run_demo)
  from generate_run_file [OF r] have n: "length recs = 3" by auto
  from generated_file_time_span [OF ok, where E = "demo_env 0" and count = 3
      and start_time = None and seed = "Some 42" and recs = recs and err = None
      and keyword = "Some ''drop''" and start_date = None and end_date = None
      and file_path = "''fw.log''"]
    ok r n eventually_public_demo [of "1 / 4"]
  show ?thesis by blast
qed

end
